theory Spec2Isabelle
  imports Main "HOL-Library.Word"
begin

unbundle bit_operations_syntax

section \<open>Block size option (class \<open>block_size\<close>, function \<open>validate\<close>)\<close>

text \<open>
  The constants of the anonymous namespace of \<^verbatim>\<open>signature.cpp\<close>. They have type
  \<open>size_t\<close>; the block size arithmetic is done in \<open>uint64_t\<close>.
\<close>

definition BLOCK_SIZE_KILOBYTE :: "64 word" where
  "BLOCK_SIZE_KILOBYTE = 1024"

definition BLOCK_SIZE_MEGABYTE :: "64 word" where
  "BLOCK_SIZE_MEGABYTE = 1024 * BLOCK_SIZE_KILOBYTE"

definition BLOCK_SIZE_GIGABYTE :: "64 word" where
  "BLOCK_SIZE_GIGABYTE = 1024 * BLOCK_SIZE_MEGABYTE"

definition BLOCK_CRC_MAP_PROCESSING_SIZE :: nat where
  "BLOCK_CRC_MAP_PROCESSING_SIZE = 100"

text \<open>\<open>std::numeric_limits<uint64_t>::max()\<close>.\<close>

definition uint64_max :: "64 word" where
  "uint64_max = 0xFFFFFFFFFFFFFFFF"

text \<open>
  The fields \<^verbatim>\<open>number_\<close> and \<^verbatim>\<open>suffix_\<close> of the class (a name may not end
  with an underscore here).
\<close>

record block_size =
  bs_number :: "64 word"
  bs_suffix :: "64 word"

text \<open>The two constructors: \<open>block_size()\<close> and \<open>block_size(uint64_t number)\<close>.\<close>

definition block_size_default :: block_size where
  "block_size_default = \<lparr>bs_number = 0, bs_suffix = 1\<rparr>"

definition block_size_of :: "64 word \<Rightarrow> block_size" where
  "block_size_of number = \<lparr>bs_number = number, bs_suffix = 1\<rparr>"

text \<open>
  An unsigned division by zero is undefined behaviour in C++ (a trap on the usual
  targets); the model makes it a value of its own instead of HOL's \<open>x div 0 = 0\<close>.
\<close>

datatype fault = Division_by_zero

text \<open>The \<open>switch\<close> of \<open>block_size::set\<close>; \<open>None\<close> is its \<open>default: return false\<close>.\<close>

definition suffix_switch :: "char \<Rightarrow> 64 word option" where
  "suffix_switch suffix =
     (if suffix = CHR ''K'' then Some BLOCK_SIZE_KILOBYTE
      else if suffix = CHR ''M'' then Some BLOCK_SIZE_MEGABYTE
      else if suffix = CHR ''G'' then Some BLOCK_SIZE_GIGABYTE
      else None)"

text \<open>
  \<open>bool block_size::set(uint64_t number, char suffix)\<close>. The result is the returned
  flag together with the object after the call, or the fault of the second overflow
  check, which divides by \<open>number\<close>.
\<close>

definition block_size_set :: "block_size \<Rightarrow> 64 word \<Rightarrow> char \<Rightarrow> fault + (bool \<times> block_size)" where
  "block_size_set this number suffix =
     (case (if suffix \<noteq> CHR 0x00 then suffix_switch suffix else Some 1) of
        None \<Rightarrow> Inr (False, this)
      | Some tmp \<Rightarrow>
          if uint64_max div tmp < number then Inr (False, this)
          else if number = 0 then Inl Division_by_zero
          else if uint64_max div number < tmp then Inr (False, this)
          else if number * tmp < BLOCK_SIZE_KILOBYTE then Inr (False, this)
          else Inr (True, this\<lparr>bs_number := number, bs_suffix := tmp\<rparr>))"

text \<open>\<open>uint64_t block_size::get() const\<close>.\<close>

definition block_size_get :: "block_size \<Rightarrow> 64 word" where
  "block_size_get this = bs_number this * bs_suffix this"

text \<open>
  \<open>validate\<close>, the overload that \<open>boost::program_options\<close> calls on the text of the
  \<^verbatim>\<open>--block\<close> option. The regular expression is \<^verbatim>\<open>(^\d+)([K|M|G]?$)\<close>: a non-empty run
  of decimal digits and then at most one character of the class \<^verbatim>\<open>[K|M|G]\<close>, which holds
  the bar as well. The digits are matched greedily; no character of the class is a
  digit, so this is the only way to match.
\<close>

definition is_digit :: "char \<Rightarrow> bool" where
  "is_digit c = (48 \<le> (of_char c :: nat) \<and> (of_char c :: nat) \<le> 57)"

definition regex_match :: "string \<Rightarrow> (string \<times> string) option" where
  "regex_match s =
     (let digits = takeWhile is_digit s; rest = dropWhile is_digit s
      in if digits = [] then None
         else (case rest of
                 [] \<Rightarrow> Some (digits, [])
               | [c] \<Rightarrow> if c \<in> set ''K|MG'' then Some (digits, [c]) else None
               | _ \<Rightarrow> None))"

text \<open>
  \<open>boost::lexical_cast<uint64_t>\<close> on a string of digits: the decimal value, and
  \<open>bad_lexical_cast\<close> (here \<open>None\<close>) when it does not fit 64 bits.
\<close>

definition decimal :: "string \<Rightarrow> nat" where
  "decimal ds = foldl (\<lambda>n c. 10 * n + (of_char c - 48)) 0 ds"

definition lexical_cast_uint64 :: "string \<Rightarrow> 64 word option" where
  "lexical_cast_uint64 ds = (if decimal ds < 2 ^ 64 then Some (of_nat (decimal ds)) else None)"

datatype validation_error = Invalid_option_value

definition validate :: "string \<Rightarrow> fault + (validation_error + block_size)" where
  "validate string_value =
     (case regex_match string_value of
        None \<Rightarrow> Inr (Inl Invalid_option_value)
      | Some (m1, m2) \<Rightarrow>
          (case lexical_cast_uint64 m1 of
             None \<Rightarrow> Inr (Inl Invalid_option_value)
           | Some number \<Rightarrow>
               (case block_size_set block_size_default number
                       (if length m2 > 0 then hd m2 else CHR 0x00) of
                  Inl f \<Rightarrow> Inl f
                | Inr (True, bs) \<Rightarrow> Inr (Inr bs)
                | Inr (False, bs) \<Rightarrow> Inr (Inl Invalid_option_value))))"

section \<open>The checksum pipeline of \<open>main\<close>\<close>

type_synonym byte = "8 word"

text \<open>
  \<open>std::map<uint64_t, uint32_t> block_crc_map\<close>, as an association list. The program
  only calls \<open>find\<close>, \<open>insert\<close> and \<open>size\<close> on the map and never iterates over it, so
  the order of the entries is not observable; \<open>insert\<close> keeps one entry for each key.
  The block numbers are \<open>uint64_t\<close> counters that go up by one for each block read; they
  are natural numbers here, since a stream cannot hold \<open>2 ^ 64\<close> blocks.
\<close>

type_synonym crc_map = "(nat \<times> 32 word) list"

definition map_find :: "crc_map \<Rightarrow> nat \<Rightarrow> 32 word option" where
  "map_find m k = map_of m k"

text \<open>\<open>std::map::insert\<close>: the map afterwards and the flag \<open>.second\<close> of its result.\<close>

definition map_insert :: "crc_map \<Rightarrow> nat \<times> 32 word \<Rightarrow> crc_map \<times> bool" where
  "map_insert m kv = (if map_find m (fst kv) = None then (kv # m, True) else (m, False))"

definition map_size :: "crc_map \<Rightarrow> nat" where
  "map_size m = length m"

text \<open>
  The closure \<open>task\<close>: it captures the buffer, the count of bytes read into it and the
  value of \<open>block_counter\<close> at the time of its creation, all by value.
\<close>

record task =
  buffer_ptr :: "byte list"
  readed_size :: nat
  captured_block_counter :: nat

datatype exit_code = EXIT_SUCCESS | EXIT_FAILURE

text \<open>What the program prints, and its other effects on the outside.\<close>

datatype event =
    Cerr string
  | Cout string
  | Cout_usage
  | Sleep_ms nat
  | Open_input string
  | Open_output string
  | Pool_stop

text \<open>Where the main thread stands.\<close>

datatype control =
    Read_loop
  | Size_check
  | Drain_loop
  | Returned exit_code

record state =
  input_file :: "byte list"
  eofbit :: bool
  output_file_stream :: "32 word list"
  block_counter :: nat
  last_processed_block_id :: nat
  block_crc_map :: crc_map
  thread_pool :: "task list"
  log :: "event list"
  control :: control

text \<open>
  \<open>input_file\<close> holds the bytes not yet read. \<open>output_file_stream\<close> holds the records
  written so far: each \<open>write\<close> of \<open>crc_saver\<close> emits the \<open>sizeof(uint32_t) = 4\<close> bytes
  of one checksum. \<open>thread_pool\<close> holds the tasks added to the pool that have not run yet.
  The state after the two streams are open:
\<close>

definition start :: "byte list \<Rightarrow> state" where
  "start input =
     \<lparr>input_file = input, eofbit = False, output_file_stream = [], block_counter = 0,
      last_processed_block_id = 0, block_crc_map = [], thread_pool = [], log = [],
      control = Read_loop\<rparr>"

text \<open>
  The closure \<open>crc_saver\<close>: while the map has an entry for \<open>last_processed_block_id\<close>,
  write its checksum and go to the next block number. It ends because each turn of the loop
  leaves fewer entries at or above the cursor.
\<close>

function crc_saver :: "state \<Rightarrow> state" where
  "crc_saver s =
     (case map_find (block_crc_map s) (last_processed_block_id s) of
        Some crc_value \<Rightarrow>
          crc_saver (s\<lparr>output_file_stream := output_file_stream s @ [crc_value],
                       last_processed_block_id := last_processed_block_id s + 1\<rparr>)
      | None \<Rightarrow> s)"
  by pat_completeness auto
termination
proof (relation "measure (\<lambda>s. length (filter (\<lambda>kv. last_processed_block_id s \<le> fst kv)
                                          (block_crc_map s)))")
  show "wf (measure (\<lambda>s. length (filter (\<lambda>kv. last_processed_block_id s \<le> fst kv)
                                          (block_crc_map s))))"
    by simp
next
  fix s :: state and crc_value :: "32 word"
  assume found: "map_find (block_crc_map s) (last_processed_block_id s) = Some crc_value"
  let ?c = "last_processed_block_id s"
  let ?m = "block_crc_map s"
  have mem: "(?c, crc_value) \<in> set ?m"
    using found by (simp add: map_find_def map_of_SomeD)
  have eq: "filter (\<lambda>kv. ?c + 1 \<le> fst kv) ?m
              = filter (\<lambda>kv. ?c + 1 \<le> fst kv) (filter (\<lambda>kv. ?c \<le> fst kv) ?m)"
    unfolding filter_filter by (rule filter_cong) auto
  have "(?c, crc_value) \<in> set (filter (\<lambda>kv. ?c \<le> fst kv) ?m)"
    using mem by simp
  then have "length (filter (\<lambda>kv. ?c + 1 \<le> fst kv) (filter (\<lambda>kv. ?c \<le> fst kv) ?m))
               < length (filter (\<lambda>kv. ?c \<le> fst kv) ?m)"
    by (rule length_filter_less) simp
  with eq have "length (filter (\<lambda>kv. ?c + 1 \<le> fst kv) ?m)
                  < length (filter (\<lambda>kv. ?c \<le> fst kv) ?m)"
    by simp
  then show "(s\<lparr>output_file_stream := output_file_stream s @ [crc_value],
                 last_processed_block_id := last_processed_block_id s + 1\<rparr>, s)
             \<in> measure (\<lambda>s. length (filter (\<lambda>kv. last_processed_block_id s \<le> fst kv)
                                             (block_crc_map s)))"
    by simp
qed

declare crc_saver.simps [simp del]

text \<open>How \<open>operator<<\<close> prints an unsigned number.\<close>

fun decimal_string :: "nat \<Rightarrow> string" where
  "decimal_string n =
     (if n < 10 then [''0123456789'' ! n]
      else decimal_string (n div 10) @ [''0123456789'' ! (n mod 10)])"

declare decimal_string.simps [simp del]

text \<open>
  The checksum that \<open>boost::crc_32_type\<close> computes is the common CRC-32 (polynomial
  \<open>0x04C11DB7\<close>, bits reflected, initial value and final xor \<open>0xFFFFFFFF\<close>). The library is
  not part of the repository; this definition stands for it wherever a closed statement
  needs a checksum function.
\<close>

definition crc_bit :: "32 word \<Rightarrow> 32 word" where
  "crc_bit c = (if bit c 0 then drop_bit 1 c XOR 0xEDB88320 else drop_bit 1 c)"

definition crc_byte :: "32 word \<Rightarrow> byte \<Rightarrow> 32 word" where
  "crc_byte c b = (crc_bit ^^ 8) (c XOR ucast b)"

definition crc_32 :: "byte list \<Rightarrow> 32 word" where
  "crc_32 bytes = foldl crc_byte 0xFFFFFFFF bytes XOR 0xFFFFFFFF"

text \<open>
  The body of \<open>task\<close>. The checksum is that of \<open>boost::crc_32_type\<close>, which is not part
  of the repository: the model takes the function from bytes to checksum as the parameter
  \<open>crc\<close>. \<open>process_bytes(buffer_ptr->data(), readed_size)\<close> reads the first
  \<open>readed_size\<close> bytes of the buffer.
\<close>

definition task_crc :: "(byte list \<Rightarrow> 32 word) \<Rightarrow> task \<Rightarrow> 32 word" where
  "task_crc crc t = crc (take (readed_size t) (buffer_ptr t))"

definition run_task :: "(byte list \<Rightarrow> 32 word) \<Rightarrow> task \<Rightarrow> state \<Rightarrow> state" where
  "run_task crc t s =
     (let crc_value = task_crc crc t;
          (m, inserted) = map_insert (block_crc_map s) (captured_block_counter t, crc_value)
      in if \<not> inserted
         then s\<lparr>block_crc_map := m,
                log := log s @ [Cerr (''block '' @ decimal_string (captured_block_counter t)
                                       @ '' insert error'')]\<rparr>
         else s\<lparr>block_crc_map := m\<rparr>)"

text \<open>
  The task of the other revision of the file (the one with the \<open>bad_alloc\<close> handlers): it
  drops the result of \<open>insert\<close>.
\<close>

definition run_task_silent :: "(byte list \<Rightarrow> 32 word) \<Rightarrow> task \<Rightarrow> state \<Rightarrow> state" where
  "run_task_silent crc t s =
     (let crc_value = task_crc crc t;
          (m, inserted) = map_insert (block_crc_map s) (captured_block_counter t, crc_value)
      in s\<lparr>block_crc_map := m\<rparr>)"

text \<open>
  One turn of the read loop when nothing is thrown: a buffer of \<open>block_size_value.get()\<close>
  zero bytes, \<open>read\<close> into it, \<open>gcount\<close>, the new task added to the pool, the counter
  advanced. \<open>read\<close> sets \<open>eofbit\<close> when the stream ends before the buffer is full.
\<close>

definition read_block :: "nat \<Rightarrow> state \<Rightarrow> state" where
  "read_block bs s =
     (let buffer = replicate bs (0 :: byte);
          gcount = min (length buffer) (length (input_file s));
          buffer' = take gcount (input_file s) @ drop gcount buffer;
          t = \<lparr>buffer_ptr = buffer', readed_size = gcount,
               captured_block_counter = block_counter s\<rparr>
      in s\<lparr>input_file := drop gcount (input_file s),
           eofbit := (length (input_file s) < length buffer),
           thread_pool := thread_pool s @ [t],
           block_counter := block_counter s + 1,
           control := Size_check\<rparr>)"

text \<open>
  An exception in the \<open>try\<close> block, with the text of its \<open>what()\<close>. The stream has no
  exception mask, so \<open>read\<close> throws nothing: what can be thrown is thrown by the
  allocation of the buffer, before anything is read.
\<close>

datatype exn = Bad_alloc string | Exception string

fun what :: "exn \<Rightarrow> string" where
  "what (Bad_alloc w) = w"
| "what (Exception w) = w"

text \<open>The handler of \<^verbatim>\<open>signature.cpp\<close>: \<open>catch (std::exception & e)\<close>, print and \<open>break\<close>.\<close>

definition read_catch :: "exn \<Rightarrow> state \<Rightarrow> state" where
  "read_catch e s = s\<lparr>log := log s @ [Cerr (what e)], control := Drain_loop\<rparr>"

text \<open>
  The two handlers of the other revision: \<open>bad_alloc\<close> sleeps and repeats the turn, any
  other exception stops the pool and returns \<open>EXIT_FAILURE\<close>.
\<close>

definition read_catch_retry :: "exn \<Rightarrow> state \<Rightarrow> state" where
  "read_catch_retry e s =
     (case e of
        Bad_alloc w \<Rightarrow> s\<lparr>log := log s @ [Sleep_ms 10], control := Read_loop\<rparr>
      | Exception w \<Rightarrow>
          s\<lparr>log := log s @ [Cerr (''unexpected exception: '' @ w), Pool_stop],
            control := Returned EXIT_FAILURE\<rparr>)"

text \<open>The check at the end of a turn of the read loop, under the lock of the map.\<close>

definition size_check :: "state \<Rightarrow> state" where
  "size_check s =
     (if map_size (block_crc_map s) \<ge> BLOCK_CRC_MAP_PROCESSING_SIZE
      then (crc_saver s)\<lparr>control := Read_loop\<rparr>
      else s\<lparr>control := Read_loop\<rparr>)"

text \<open>One turn of the last loop, and what follows the loop.\<close>

definition drain :: "state \<Rightarrow> state" where
  "drain s = crc_saver (s\<lparr>log := log s @ [Sleep_ms 10]\<rparr>)"

definition finish :: "state \<Rightarrow> state" where
  "finish s = s\<lparr>log := log s @ [Pool_stop, Cout ''done''], control := Returned EXIT_SUCCESS\<rparr>"

text \<open>
  The threads interleave at the lock of the map, the only object they share: the main
  thread owns the streams and the two counters, and a task has its own copies of what it
  captured. A run of the program is a list of actions; \<open>fire\<close> is \<open>None\<close> where the
  action cannot happen. The pool is \<open>thool::thread_pool\<close>, which is not part of the
  repository: a task that was added runs once, at any later time, whatever the others do.
\<close>

datatype action =
    Read_block
  | Throw exn
  | End_of_file
  | Check_size
  | Drain
  | Finish
  | Run_task nat

text \<open>The pool hands the task at position \<open>i\<close> of its queue to a thread.\<close>

definition take_task :: "nat \<Rightarrow> state \<Rightarrow> state" where
  "take_task i s = s\<lparr>thread_pool := take i (thread_pool s) @ drop (Suc i) (thread_pool s)\<rparr>"

fun fire :: "(byte list \<Rightarrow> 32 word) \<Rightarrow> nat \<Rightarrow> action \<Rightarrow> state \<Rightarrow> state option" where
  "fire crc bs Read_block s =
     (if control s = Read_loop \<and> \<not> eofbit s then Some (read_block bs s) else None)"
| "fire crc bs (Throw e) s =
     (if control s = Read_loop \<and> \<not> eofbit s then Some (read_catch e s) else None)"
| "fire crc bs End_of_file s =
     (if control s = Read_loop \<and> eofbit s then Some (s\<lparr>control := Drain_loop\<rparr>) else None)"
| "fire crc bs Check_size s =
     (if control s = Size_check then Some (size_check s) else None)"
| "fire crc bs Drain s =
     (if control s = Drain_loop \<and> last_processed_block_id s \<noteq> block_counter s
      then Some (drain s) else None)"
| "fire crc bs Finish s =
     (if control s = Drain_loop \<and> last_processed_block_id s = block_counter s
      then Some (finish s) else None)"
| "fire crc bs (Run_task i) s =
     (if i < length (thread_pool s)
      then Some (run_task crc (thread_pool s ! i) (take_task i s))
      else None)"

fun run :: "(byte list \<Rightarrow> 32 word) \<Rightarrow> nat \<Rightarrow> action list \<Rightarrow> state \<Rightarrow> state option" where
  "run crc bs [] s = Some s"
| "run crc bs (a # as) s =
     (case fire crc bs a s of None \<Rightarrow> None | Some s' \<Rightarrow> run crc bs as s')"

text \<open>A run in which no allocation fails.\<close>

fun is_throw :: "action \<Rightarrow> bool" where
  "is_throw (Throw e) = True"
| "is_throw a = False"

definition no_throw :: "action list \<Rightarrow> bool" where
  "no_throw sched = (\<forall>a \<in> set sched. \<not> is_throw a)"

subsection \<open>The start of \<open>main\<close>\<close>

text \<open>
  The outcome of the \<open>try\<close> block around \<open>bpo::store\<close> and \<open>bpo::notify\<close> is an input of
  the model: the text of the exception, or the values of the options, \<open>count_help\<close>
  being \<open>vm.count("help")\<close> and \<open>block_size_value\<close>
  being that of \<^verbatim>\<open>--block\<close> or else \<open>BLOCK_SIZE_MEGABYTE\<close>.
\<close>

record options =
  count_help :: bool
  input_file_name :: string
  output_file_name :: string
  block_size_value :: block_size

text \<open>
  Either \<open>main\<close> returns before the loops, or it goes on with the bytes of the input file
  and the block size.
\<close>

datatype startup = Exit exit_code | Process "byte list" nat

text \<open>
  The files are a map from names to contents. An \<open>ifstream\<close> opens when the file is there;
  whether an \<open>ofstream\<close> opens is up to the environment (\<open>can_create\<close>), and with \<open>trunc\<close>
  it leaves the file empty.
\<close>

definition main_startup ::
  "nat \<Rightarrow> string + options \<Rightarrow> (string \<Rightarrow> bool) \<Rightarrow> (string \<rightharpoonup> byte list)
     \<Rightarrow> event list \<times> (string \<rightharpoonup> byte list) \<times> startup" where
  "main_startup argc parsed can_create files =
     (case parsed of
        Inl e_what \<Rightarrow> ([Cerr e_what], files, Exit EXIT_FAILURE)
      | Inr opts \<Rightarrow>
          if count_help opts \<or> argc = 1 then ([Cout_usage], files, Exit EXIT_SUCCESS)
          else if input_file_name opts = output_file_name opts
          then ([Cerr ''input and output files are same''], files, Exit EXIT_FAILURE)
          else
            let printed =
                  [Cout (''input  file = '' @ input_file_name opts),
                   Cout (''output file = '' @ output_file_name opts),
                   Cout (''block  size = ''
                           @ decimal_string (unat (block_size_get (block_size_value opts)))),
                   Open_input (input_file_name opts)]
            in (case files (input_file_name opts) of
                  None \<Rightarrow>
                    (printed @ [Cerr (''can'' @ [CHR 0x27] @ ''t open input file'')],
                     files, Exit EXIT_FAILURE)
                | Some bytes \<Rightarrow>
                    if \<not> can_create (output_file_name opts)
                    then (printed @ [Open_output (output_file_name opts),
                                     Cerr (''can'' @ [CHR 0x27] @ ''t open output file'')],
                          files, Exit EXIT_FAILURE)
                    else (printed @ [Open_output (output_file_name opts)],
                          files(output_file_name opts \<mapsto> []),
                          Process bytes (unat (block_size_get (block_size_value opts))))))"

section \<open>Notions of the specification\<close>

text \<open>The multiplier of a suffix, and the suffixes the option accepts (none, K, M, G).\<close>

definition multiplier :: "char \<Rightarrow> nat" where
  "multiplier suffix =
     (if suffix = CHR ''K'' then 1024
      else if suffix = CHR ''M'' then 1024 * 1024
      else if suffix = CHR ''G'' then 1024 * 1024 * 1024
      else 1)"

definition valid_suffix :: "char \<Rightarrow> bool" where
  "valid_suffix suffix =
     (suffix = CHR 0x00 \<or> suffix = CHR ''K'' \<or> suffix = CHR ''M'' \<or> suffix = CHR ''G'')"

text \<open>Block \<open>i\<close> of a stream cut into blocks of \<open>bs\<close> bytes.\<close>

definition block_at :: "nat \<Rightarrow> byte list \<Rightarrow> nat \<Rightarrow> byte list" where
  "block_at bs input i = take bs (drop (i * bs) input)"

text \<open>The checksums of the first \<open>n\<close> blocks, in the order of the blocks.\<close>

definition signature :: "(byte list \<Rightarrow> 32 word) \<Rightarrow> nat \<Rightarrow> byte list \<Rightarrow> nat \<Rightarrow> 32 word list" where
  "signature crc bs input n = map (\<lambda>i. crc (block_at bs input i)) [0..<n]"

text \<open>
  The store after the records of a list have been inserted, in the order of the list.
\<close>

definition inserts :: "crc_map \<Rightarrow> (nat \<times> 32 word) list \<Rightarrow> crc_map" where
  "inserts m kvs = foldl (\<lambda>m kv. fst (map_insert m kv)) m kvs"

text \<open>
  A run that reads \<open>n + 1\<close> blocks and lets every task but the first finish at once.
\<close>

definition starve :: "nat \<Rightarrow> action list" where
  "starve n = [Read_block, Check_size] @ concat (replicate n [Read_block, Check_size, Run_task 1])"

text \<open>The state that the run \<open>starve n\<close> leads to, when the input has \<open>n + 1\<close> whole blocks.\<close>

definition starved :: "(byte list \<Rightarrow> 32 word) \<Rightarrow> nat \<Rightarrow> byte list \<Rightarrow> nat \<Rightarrow> state" where
  "starved crc bs input n =
     \<lparr>input_file = drop ((n + 1) * bs) input, eofbit = False, output_file_stream = [],
      block_counter = n + 1, last_processed_block_id = 0,
      block_crc_map = rev (map (\<lambda>k. (k, crc (block_at bs input k))) [1..<n + 1]),
      thread_pool = [\<lparr>buffer_ptr = block_at bs input 0, readed_size = bs,
                       captured_block_counter = 0\<rparr>],
      log = [], control = Read_loop\<rparr>"

section \<open>Invariants of the pipeline\<close>

text \<open>
  The block numbers: the entries of the map and the tasks in the pool have distinct
  numbers, which together are the numbers below \<open>block_counter\<close>; the cursor is not
  beyond the counter, and every number below the cursor is in the map.
\<close>

definition ids_inv :: "state \<Rightarrow> bool" where
  "ids_inv s \<longleftrightarrow>
     distinct (map fst (block_crc_map s))
     \<and> distinct (map captured_block_counter (thread_pool s))
     \<and> fst ` set (block_crc_map s) \<inter> captured_block_counter ` set (thread_pool s) = {}
     \<and> fst ` set (block_crc_map s) \<union> captured_block_counter ` set (thread_pool s)
         = {..<block_counter s}
     \<and> last_processed_block_id s \<le> block_counter s
     \<and> {..<last_processed_block_id s} \<subseteq> fst ` set (block_crc_map s)"

text \<open>A task holds its block of the input in the first \<open>readed_size\<close> bytes of its buffer.\<close>

definition task_ok :: "nat \<Rightarrow> byte list \<Rightarrow> task \<Rightarrow> bool" where
  "task_ok bs input t \<longleftrightarrow>
     length (buffer_ptr t) = bs
     \<and> take (readed_size t) (buffer_ptr t) = block_at bs input (captured_block_counter t)
     \<and> readed_size t = length (block_at bs input (captured_block_counter t))"

text \<open>Where the input stream stands after \<open>block_counter\<close> blocks.\<close>

definition stream_ok :: "nat \<Rightarrow> byte list \<Rightarrow> state \<Rightarrow> bool" where
  "stream_ok bs input s \<longleftrightarrow>
     (\<not> eofbit s \<longrightarrow> input_file s = drop (block_counter s * bs) input
                      \<and> block_counter s * bs \<le> length input)
     \<and> (eofbit s \<longrightarrow> block_counter s = length input div bs + 1)"

definition data_inv :: "(byte list \<Rightarrow> 32 word) \<Rightarrow> nat \<Rightarrow> byte list \<Rightarrow> state \<Rightarrow> bool" where
  "data_inv crc bs input s \<longleftrightarrow>
     (\<forall>t \<in> set (thread_pool s). task_ok bs input t)
     \<and> (\<forall>kv \<in> set (block_crc_map s). snd kv = crc (block_at bs input (fst kv)))
     \<and> output_file_stream s = signature crc bs input (last_processed_block_id s)
     \<and> stream_ok bs input s"

text \<open>\<open>main\<close> returns from the loops only with success and with every block written.\<close>

definition ctl_inv :: "state \<Rightarrow> bool" where
  "ctl_inv s \<longleftrightarrow>
     (\<forall>c. control s = Returned c \<longrightarrow>
        c = EXIT_SUCCESS \<and> last_processed_block_id s = block_counter s)"

text \<open>Unless an allocation failed, the read loop is left at the end of the stream only.\<close>

definition eof_inv :: "state \<Rightarrow> bool" where
  "eof_inv s \<longleftrightarrow> (control s = Drain_loop \<or> (\<exists>c. control s = Returned c) \<longrightarrow> eofbit s)"

definition pipeline_inv :: "(byte list \<Rightarrow> 32 word) \<Rightarrow> nat \<Rightarrow> byte list \<Rightarrow> state \<Rightarrow> bool" where
  "pipeline_inv crc bs input s \<longleftrightarrow> ids_inv s \<and> data_inv crc bs input s \<and> ctl_inv s"

text \<open>
  A bound on the number of actions before \<open>main\<close> returns, when no allocation fails: three
  for each block still to be read, one for each task in the pool, and the rank of the place
  where the main thread stands.
\<close>

fun rank :: "control \<Rightarrow> bool \<Rightarrow> nat" where
  "rank (Returned c) w = 0"
| "rank Drain_loop w = (if w then 1 else 2)"
| "rank Read_loop w = 3"
| "rank Size_check w = 4"

definition steps_left :: "nat \<Rightarrow> byte list \<Rightarrow> state \<Rightarrow> nat" where
  "steps_left bs input s =
     3 * (length input div bs + 1 - block_counter s) + length (thread_pool s)
     + rank (control s) (last_processed_block_id s = block_counter s)"

section \<open>Properties of the block size option\<close>

lemma suffix_tmp:
  "(if suffix \<noteq> CHR 0x00 then suffix_switch suffix else Some 1) =
     (if valid_suffix suffix then Some (of_nat (multiplier suffix)) else None)"
  by (simp add: suffix_switch_def valid_suffix_def multiplier_def BLOCK_SIZE_KILOBYTE_def
      BLOCK_SIZE_MEGABYTE_def BLOCK_SIZE_GIGABYTE_def)

lemma unat_multiplier: "unat (of_nat (multiplier suffix) :: 64 word) = multiplier suffix"
  by (simp add: multiplier_def)

lemma multiplier_pos: "0 < multiplier suffix"
  by (simp add: multiplier_def)

lemma unat_uint64_max: "unat uint64_max = 2 ^ 64 - 1"
  by (simp add: uint64_max_def)

text \<open>Each of the two checks of \<open>set\<close> is the overflow test, when the divisor is not zero.\<close>

lemma overflow_check:
  fixes a b :: "64 word"
  assumes "b \<noteq> 0"
  shows "uint64_max div b < a \<longleftrightarrow> 2 ^ 64 \<le> unat a * unat b"
proof -
  have t: "0 < unat b" using assms by (simp add: unat_gt_0)
  have "(\<not> uint64_max div b < a) \<longleftrightarrow> unat a \<le> (2 ^ 64 - 1) div unat b"
    by (simp add: word_less_nat_alt unat_div unat_uint64_max not_less)
  also have "\<dots> \<longleftrightarrow> unat a * unat b \<le> 2 ^ 64 - 1"
    using t by (simp add: less_eq_div_iff_mult_less_eq)
  also have "\<dots>  \<longleftrightarrow> unat a * unat b < 2 ^ 64" by auto
  finally show ?thesis by auto
qed

lemma unat_product:
  fixes a b :: "64 word"
  assumes "unat a * unat b < 2 ^ 64"
  shows "unat (a * b) = unat a * unat b"
  using assms by (simp add: unat_word_ariths)

text \<open>
  For a number other than zero, \<open>set\<close> does what the option promises: it returns true
  exactly for a suffix that is absent or K, M or G and a product that fits 64 bits and is
  at least 1024; it then stores the two parts, and stores nothing otherwise.
\<close>

lemma block_size_set_nonzero:
  assumes "number \<noteq> 0"
  shows "block_size_set this number suffix =
     (if valid_suffix suffix \<and> unat number * multiplier suffix < 2 ^ 64
          \<and> 1024 \<le> unat number * multiplier suffix
      then Inr (True, this\<lparr>bs_number := number, bs_suffix := of_nat (multiplier suffix)\<rparr>)
      else Inr (False, this))"
proof (cases "valid_suffix suffix")
  case False
  then show ?thesis by (simp add: block_size_set_def suffix_tmp)
next
  case True
  let ?tmp = "of_nat (multiplier suffix) :: 64 word"
  have tmp0: "?tmp \<noteq> 0"
    using multiplier_pos [of suffix] unat_multiplier [of suffix]
    by (metis less_numeral_extra(3) unat_0)
  have c1: "uint64_max div ?tmp < number \<longleftrightarrow> 2 ^ 64 \<le> unat number * multiplier suffix"
    using overflow_check [OF tmp0, of number] by (simp add: unat_multiplier)
  have c2: "uint64_max div number < ?tmp \<longleftrightarrow> 2 ^ 64 \<le> unat number * multiplier suffix"
    using overflow_check [OF assms, of ?tmp] by (simp add: unat_multiplier mult.commute)
  have c3: "number * ?tmp < BLOCK_SIZE_KILOBYTE \<longleftrightarrow> unat number * multiplier suffix < 1024"
    if "unat number * multiplier suffix < 2 ^ 64"
    using unat_product [of number ?tmp] that
    by (simp add: word_less_nat_alt BLOCK_SIZE_KILOBYTE_def unat_multiplier)
  show ?thesis
    using True assms c1 c2 c3
    by (simp add: block_size_set_def suffix_tmp not_le not_less)
qed

lemma block_size_get_after_set:
  assumes "block_size_set this number suffix = Inr (True, this')"
  shows "unat (block_size_get this') = unat number * multiplier suffix"
proof -
  have n: "number \<noteq> 0"
    using assms by (auto simp: block_size_set_def split: option.splits if_splits)
  show ?thesis
    using assms unat_product [of number "of_nat (multiplier suffix)"]
    by (auto simp: block_size_set_nonzero [OF n] block_size_get_def unat_multiplier
        split: if_splits)
qed

text \<open>For the number zero, \<open>set\<close> divides by it unless the suffix is rejected first.\<close>

lemma block_size_set_zero:
  "block_size_set this 0 suffix =
     (if valid_suffix suffix then Inl Division_by_zero else Inr (False, this))"
  using multiplier_pos [of suffix] unat_multiplier [of suffix]
  by (auto simp add: block_size_set_def suffix_tmp word_less_nat_alt)

text \<open>
  C8: \<open>block_size::set(number, suffix)\<close> returns true exactly when the suffix is absent or
  one of K, M, G, the product of number and multiplier fits a 64-bit unsigned integer and
  is at least 1024; the stored value is unchanged when it fails. For the number 0 and no
  suffix the claim has \<open>set\<close> return false and leave the object as it was: the code
  returns nothing, it divides \<open>uint64_t\<close>'s maximum by the number in its second overflow
  check. (For the other numbers the claim holds: \<open>block_size_set_nonzero\<close>,
  \<open>block_size_get_after_set\<close>.)
\<close>

theorem set_zero_no_suffix_divides_by_zero:
  "block_size_set this 0 (CHR 0x00) = Inl Division_by_zero
   \<and> block_size_set this 0 (CHR 0x00) \<noteq> Inr (False, this)"
  by (simp add: block_size_set_zero valid_suffix_def)

text \<open>
  C10: \<open>block_size::set\<close> never divides by zero. It does: with the number 0 and each suffix
  that the \<open>switch\<close> lets through, the first check passes and the second one divides by
  the number. The text \<^verbatim>\<open>0\<close> of the option \<^verbatim>\<open>--block\<close> gets there through \<open>validate\<close>, and
  so do \<^verbatim>\<open>0K\<close>, \<^verbatim>\<open>0M\<close> and \<^verbatim>\<open>0G\<close>.
\<close>

theorem set_zero_divides_by_zero:
  "block_size_set this 0 (CHR 0x00) = Inl Division_by_zero
   \<and> block_size_set this 0 (CHR ''K'') = Inl Division_by_zero
   \<and> block_size_set this 0 (CHR ''M'') = Inl Division_by_zero
   \<and> block_size_set this 0 (CHR ''G'') = Inl Division_by_zero
   \<and> validate ''0'' = Inl Division_by_zero
   \<and> validate ''0K'' = Inl Division_by_zero"
  by (simp add: block_size_set_zero valid_suffix_def validate_def regex_match_def is_digit_def
      lexical_cast_uint64_def decimal_def)

section \<open>The invariants hold in every run\<close>

lemma map_find_None_iff: "map_find m k = None \<longleftrightarrow> k \<notin> fst ` set m"
  by (simp add: map_find_def map_of_eq_None_iff)

lemma map_find_SomeD: "map_find m k = Some v \<Longrightarrow> (k, v) \<in> set m"
  by (simp add: map_find_def map_of_SomeD)

lemma signature_Suc:
  "signature crc bs input (Suc n) = signature crc bs input n @ [crc (block_at bs input n)]"
  by (simp add: signature_def)

text \<open>One turn of the loop of \<open>crc_saver\<close>.\<close>

lemma write_ids:
  assumes "ids_inv s" "map_find (block_crc_map s) (last_processed_block_id s) = Some v"
  shows "ids_inv (s\<lparr>output_file_stream := output_file_stream s @ [v],
                    last_processed_block_id := last_processed_block_id s + 1\<rparr>)"
proof -
  have key: "last_processed_block_id s \<in> fst ` set (block_crc_map s)"
    using assms(2) map_find_None_iff [of "block_crc_map s" "last_processed_block_id s"] by simp
  then have "last_processed_block_id s \<in> {..<block_counter s}"
    using assms(1) unfolding ids_inv_def by blast
  then have lt: "last_processed_block_id s < block_counter s" by simp
  have sub: "{..<last_processed_block_id s + 1} \<subseteq> fst ` set (block_crc_map s)"
  proof
    fix i assume "i \<in> {..<last_processed_block_id s + 1}"
    then have "i < last_processed_block_id s \<or> i = last_processed_block_id s" by auto
    then show "i \<in> fst ` set (block_crc_map s)"
      using key assms(1) unfolding ids_inv_def by auto
  qed
  show ?thesis using assms(1) lt sub unfolding ids_inv_def by simp
qed

lemma write_data:
  assumes "data_inv crc bs input s"
    "map_find (block_crc_map s) (last_processed_block_id s) = Some v"
  shows "data_inv crc bs input (s\<lparr>output_file_stream := output_file_stream s @ [v],
                    last_processed_block_id := last_processed_block_id s + 1\<rparr>)"
proof -
  have "(last_processed_block_id s, v) \<in> set (block_crc_map s)"
    using assms(2) by (rule map_find_SomeD)
  then have v: "v = crc (block_at bs input (last_processed_block_id s))"
    using assms(1) unfolding data_inv_def by fastforce
  show ?thesis
    using assms(1) v unfolding data_inv_def by (simp add: signature_Suc stream_ok_def)
qed

lemma crc_saver_inv:
  "ids_inv s \<Longrightarrow> data_inv crc bs input s
     \<Longrightarrow> ids_inv (crc_saver s) \<and> data_inv crc bs input (crc_saver s)"
proof (induction s rule: crc_saver.induct)
  case (1 s)
  show ?case
  proof (cases "map_find (block_crc_map s) (last_processed_block_id s)")
    case None
    then show ?thesis using "1.prems" by (simp add: crc_saver.simps [of s])
  next
    case (Some v)
    show ?thesis
      using "1.IH" [OF Some write_ids [OF "1.prems"(1) Some] write_data [OF "1.prems"(2) Some]]
        Some by (simp add: crc_saver.simps [of s])
  qed
qed

text \<open>What \<open>crc_saver\<close> leaves alone.\<close>

lemma crc_saver_same:
  "block_crc_map (crc_saver s) = block_crc_map s
   \<and> thread_pool (crc_saver s) = thread_pool s
   \<and> block_counter (crc_saver s) = block_counter s
   \<and> input_file (crc_saver s) = input_file s
   \<and> eofbit (crc_saver s) = eofbit s
   \<and> log (crc_saver s) = log s
   \<and> control (crc_saver s) = control s"
proof (induction s rule: crc_saver.induct)
  case (1 s)
  show ?case
  proof (cases "map_find (block_crc_map s) (last_processed_block_id s)")
    case None
    then show ?thesis by (simp add: crc_saver.simps [of s])
  next
    case (Some v)
    show ?thesis using "1.IH" [OF Some] Some by (simp add: crc_saver.simps [of s])
  qed
qed

lemma inv_control:
  "ids_inv (s\<lparr>control := c\<rparr>) = ids_inv s"
  "data_inv crc bs input (s\<lparr>control := c\<rparr>) = data_inv crc bs input s"
  by (simp_all add: ids_inv_def data_inv_def stream_ok_def)

lemma inv_log:
  "ids_inv (s\<lparr>log := l\<rparr>) = ids_inv s"
  "data_inv crc bs input (s\<lparr>log := l\<rparr>) = data_inv crc bs input s"
  by (simp_all add: ids_inv_def data_inv_def stream_ok_def)

lemma read_block_ids:
  assumes "ids_inv s"
  shows "ids_inv (read_block bs s)"
proof -
  have fresh: "block_counter s \<notin> fst ` set (block_crc_map s)"
       "block_counter s \<notin> captured_block_counter ` set (thread_pool s)"
    using assms unfolding ids_inv_def by (metis UnCI lessThan_iff less_irrefl)+
  have un: "insert (block_counter s) {..<block_counter s} = {..<Suc (block_counter s)}"
    by auto
  show ?thesis
    using assms fresh un unfolding ids_inv_def read_block_def Let_def
    by (auto simp: )
qed

lemma read_block_data:
  assumes "data_inv crc bs input s" "\<not> eofbit s" "0 < bs"
  shows "data_inv crc bs input (read_block bs s)"
proof -
  let ?k = "block_counter s"
  let ?rest = "input_file s"
  let ?n = "min bs (length ?rest)"
  have rest: "?rest = drop (?k * bs) input" and le: "?k * bs \<le> length input"
    using assms(1,2) unfolding data_inv_def stream_ok_def by auto
  let ?t = "\<lparr>buffer_ptr = take ?n ?rest @ drop ?n (replicate bs (0 :: byte)),
             readed_size = ?n, captured_block_counter = ?k\<rparr>"
  have tk: "take ?n ?rest = block_at bs input ?k"
    by (simp add: block_at_def rest min_def)
  have len: "length (block_at bs input ?k) = ?n"
    by (simp add: block_at_def rest min.commute)
  have l1: "length (take ?n ?rest) = ?n" by simp
  have l2: "take ?n (take ?n ?rest @ drop ?n (replicate bs (0 :: byte))) = take ?n ?rest"
    using l1 by (metis append_eq_conv_conj)
  have l3: "length (take ?n ?rest @ drop ?n (replicate bs (0 :: byte))) = bs"
    by simp
  have t: "task_ok bs input ?t"
    unfolding task_ok_def using tk len l2 l3 by (simp del: take_append length_append)
  have dr: "drop ?n ?rest = drop bs ?rest" by (simp add: min_def)
  have st: "stream_ok bs input (read_block bs s)"
  proof -
    have a: "input_file (read_block bs s) = drop (Suc ?k * bs) input"
      using dr by (simp add: read_block_def Let_def rest add.commute)
    have b: "eofbit (read_block bs s) \<longleftrightarrow> length input - ?k * bs < bs"
      by (simp add: read_block_def Let_def rest)
    have c: "block_counter (read_block bs s) = Suc ?k"
      by (simp add: read_block_def Let_def)
    have d: "length input - ?k * bs < bs \<Longrightarrow> length input div bs = ?k"
      using le assms(3)
      by (metis div_nat_eqI less_diff_conv2 mult.commute mult_Suc)
    have e: "\<not> length input - ?k * bs < bs \<Longrightarrow> Suc ?k * bs \<le> length input"
      using le by simp
    show ?thesis unfolding stream_ok_def using a b c d e by auto
  qed
  have pool: "thread_pool (read_block bs s) = thread_pool s @ [?t]"
    by (simp add: read_block_def Let_def)
  have same: "block_crc_map (read_block bs s) = block_crc_map s"
    "output_file_stream (read_block bs s) = output_file_stream s"
    "last_processed_block_id (read_block bs s) = last_processed_block_id s"
    by (simp_all add: read_block_def Let_def)
  show ?thesis
    using assms(1) t st unfolding data_inv_def pool same by auto
qed


lemma run_task_fresh:
  assumes "captured_block_counter t \<notin> fst ` set (block_crc_map s)"
  shows "run_task crc t s
           = s\<lparr>block_crc_map := (captured_block_counter t, task_crc crc t) # block_crc_map s\<rparr>"
  using assms map_find_None_iff [of "block_crc_map s" "captured_block_counter t"]
  by (simp add: run_task_def map_insert_def Let_def)

lemma run_task_duplicate:
  assumes "captured_block_counter t \<in> fst ` set (block_crc_map s)"
  shows "run_task crc t s
           = s\<lparr>log := log s @ [Cerr (''block '' @ decimal_string (captured_block_counter t)
                                        @ '' insert error'')]\<rparr>"
  using assms map_find_None_iff [of "block_crc_map s" "captured_block_counter t"]
  by (simp add: run_task_def map_insert_def Let_def)

lemma pool_split:
  assumes "i < length (thread_pool s)"
  shows "thread_pool s = take i (thread_pool s) @ thread_pool s ! i # drop (Suc i) (thread_pool s)"
  using assms by (rule id_take_nth_drop)

lemma fire_run_task_ids:
  assumes "ids_inv s" "i < length (thread_pool s)"
  shows "ids_inv (run_task crc (thread_pool s ! i) (take_task i s))"
    and "log (run_task crc (thread_pool s ! i) (take_task i s)) = log s"
proof -
  let ?t = "thread_pool s ! i"
  let ?xs = "take i (thread_pool s)"
  let ?ys = "drop (Suc i) (thread_pool s)"
  have sp: "thread_pool s = ?xs @ ?t # ?ys" using assms(2) by (rule pool_split)
  have mem: "?t \<in> set (thread_pool s)" using assms(2) by simp
  have d: "distinct (map captured_block_counter (?xs @ ?t # ?ys))"
    using assms(1) sp unfolding ids_inv_def by metis
  have dj: "fst ` set (block_crc_map s) \<inter> captured_block_counter ` set (?xs @ ?t # ?ys) = {}"
    using assms(1) sp unfolding ids_inv_def by metis
  have un: "fst ` set (block_crc_map s) \<union> captured_block_counter ` set (?xs @ ?t # ?ys)
              = {..<block_counter s}"
    using assms(1) sp unfolding ids_inv_def by metis
  have fresh: "captured_block_counter ?t \<notin> fst ` set (block_crc_map s)"
    using dj by auto
  have eq: "run_task crc ?t (take_task i s)
          = (take_task i s)\<lparr>block_crc_map :=
                (captured_block_counter ?t, task_crc crc ?t) # block_crc_map s\<rparr>"
    using run_task_fresh [of ?t "take_task i s" crc] fresh by (simp add: take_task_def)
  show "log (run_task crc ?t (take_task i s)) = log s"
    unfolding eq by (simp add: take_task_def)
  have rest: "distinct (map fst (block_crc_map s))"
    "last_processed_block_id s \<le> block_counter s"
    "{..<last_processed_block_id s} \<subseteq> fst ` set (block_crc_map s)"
    using assms(1) unfolding ids_inv_def by simp_all
  have "ids_inv ((take_task i s)\<lparr>block_crc_map :=
                (captured_block_counter ?t, task_crc crc ?t) # block_crc_map s\<rparr>)"
    unfolding ids_inv_def take_task_def
    using d dj un fresh rest by (auto simp: image_Un)
  then show "ids_inv (run_task crc ?t (take_task i s))"
    by (simp only: eq)
qed

lemma fire_run_task_data:
  assumes "ids_inv s" "data_inv crc bs input s" "i < length (thread_pool s)"
  shows "data_inv crc bs input (run_task crc (thread_pool s ! i) (take_task i s))"
proof -
  let ?t = "thread_pool s ! i"
  have mem: "?t \<in> set (thread_pool s)" using assms(3) by simp
  have sp: "thread_pool s = take i (thread_pool s) @ ?t # drop (Suc i) (thread_pool s)"
    using assms(3) by (rule pool_split)
  have dj: "fst ` set (block_crc_map s) \<inter> captured_block_counter ` set (thread_pool s) = {}"
    using assms(1) unfolding ids_inv_def by simp
  have fresh: "captured_block_counter ?t \<notin> fst ` set (block_crc_map s)"
    using dj mem by auto
  have eq: "run_task crc ?t (take_task i s)
          = (take_task i s)\<lparr>block_crc_map :=
                (captured_block_counter ?t, task_crc crc ?t) # block_crc_map s\<rparr>"
    using run_task_fresh [of ?t "take_task i s" crc] fresh by (simp add: take_task_def)
  have ok: "task_ok bs input ?t"
    using assms(2) mem unfolding data_inv_def by blast
  then have "take (readed_size ?t) (buffer_ptr ?t)
               = block_at bs input (captured_block_counter ?t)"
    unfolding task_ok_def by blast
  then have v: "task_crc crc ?t = crc (block_at bs input (captured_block_counter ?t))"
    by (simp add: task_crc_def)
  have sub: "set (take i (thread_pool s) @ drop (Suc i) (thread_pool s)) \<subseteq> set (thread_pool s)"
    using set_take_subset set_drop_subset by (metis Un_least set_append)
  have "data_inv crc bs input ((take_task i s)\<lparr>block_crc_map :=
                (captured_block_counter ?t, task_crc crc ?t) # block_crc_map s\<rparr>)"
    using assms(2) v sub
    by (auto simp: data_inv_def take_task_def stream_ok_def)
  then show ?thesis
    by (simp only: eq)
qed

lemma start_inv: "pipeline_inv crc bs input (start input)"
  by (simp add: pipeline_inv_def ids_inv_def data_inv_def ctl_inv_def stream_ok_def start_def
      signature_def)

lemma fire_inv:
  assumes "pipeline_inv crc bs input s" "fire crc bs a s = Some s'" "0 < bs"
  shows "pipeline_inv crc bs input s'"
proof -
  have i: "ids_inv s" and d: "data_inv crc bs input s" and c: "ctl_inv s"
    using assms(1) by (simp_all add: pipeline_inv_def)
  show ?thesis
  proof (cases a)
    case Read_block
    then have g: "control s = Read_loop" "\<not> eofbit s" and s': "s' = read_block bs s"
      using assms(2) by (auto split: if_splits)
    have "ctl_inv s'" by (simp add: s' ctl_inv_def read_block_def Let_def)
    then show ?thesis
      using read_block_ids [OF i] read_block_data [OF d g(2) assms(3)]
      by (simp add: pipeline_inv_def s')
  next
    case (Throw e)
    then have s': "s' = read_catch e s"
      using assms(2) by (auto split: if_splits)
    show ?thesis
      using i d by (simp add: pipeline_inv_def s' read_catch_def ctl_inv_def ids_inv_def
          data_inv_def stream_ok_def)
  next
    case End_of_file
    then have s': "s' = s\<lparr>control := Drain_loop\<rparr>"
      using assms(2) by (auto split: if_splits)
    show ?thesis
      using i d by (simp add: pipeline_inv_def s' inv_control ctl_inv_def)
  next
    case Check_size
    then have s': "s' = size_check s"
      using assms(2) by (auto split: if_splits)
    show ?thesis
      using i d crc_saver_inv [OF i d]
      by (simp add: pipeline_inv_def s' size_check_def inv_control ctl_inv_def)
  next
    case Drain
    then have s': "s' = drain s" and g: "control s = Drain_loop"
      using assms(2) by (auto split: if_splits)
    have "ids_inv (s\<lparr>log := log s @ [Sleep_ms 10]\<rparr>)"
      "data_inv crc bs input (s\<lparr>log := log s @ [Sleep_ms 10]\<rparr>)"
      using i d by (simp_all add: inv_log)
    then have "ids_inv (drain s) \<and> data_inv crc bs input (drain s)"
      unfolding drain_def by (rule crc_saver_inv)
    moreover have "control (drain s) = Drain_loop"
      using g by (simp add: drain_def crc_saver_same)
    ultimately show ?thesis
      by (simp add: pipeline_inv_def s' ctl_inv_def)
  next
    case Finish
    then have s': "s' = finish s" and g: "last_processed_block_id s = block_counter s"
      using assms(2) by (auto split: if_splits)
    show ?thesis
      using i d g by (simp add: pipeline_inv_def s' finish_def ctl_inv_def ids_inv_def
          data_inv_def stream_ok_def)
  next
    case (Run_task n)
    then have g: "n < length (thread_pool s)"
      and s': "s' = run_task crc (thread_pool s ! n) (take_task n s)"
      using assms(2) by (auto split: if_splits)
    have same: "control s' = control s" "last_processed_block_id s' = last_processed_block_id s"
      "block_counter s' = block_counter s"
      unfolding s' by (simp_all add: run_task_def take_task_def Let_def split: prod.splits)
    have "ctl_inv s'" using c unfolding ctl_inv_def same by simp
    then show ?thesis
      using fire_run_task_ids(1) [OF i g] fire_run_task_data [OF i d g]
      by (simp add: pipeline_inv_def s')
  qed
qed

lemma run_inv:
  assumes "0 < bs"
  shows "pipeline_inv crc bs input s \<Longrightarrow> run crc bs sched s = Some s'
           \<Longrightarrow> pipeline_inv crc bs input s'"
proof (induction sched arbitrary: s)
  case Nil
  then show ?case by simp
next
  case (Cons a sched)
  from Cons.prems(2) obtain s1 where f: "fire crc bs a s = Some s1"
    and r: "run crc bs sched s1 = Some s'"
    by (auto split: option.splits)
  show ?case
    using Cons.IH [OF fire_inv [OF Cons.prems(1) f assms] r] .
qed

lemma reachable_inv:
  assumes "0 < bs" "run crc bs sched (start input) = Some s"
  shows "pipeline_inv crc bs input s"
  using run_inv [OF assms(1) start_inv assms(2)] .

lemma crc_saver_ids: "ids_inv s \<Longrightarrow> ids_inv (crc_saver s)"
proof (induction s rule: crc_saver.induct)
  case (1 s)
  show ?case
  proof (cases "map_find (block_crc_map s) (last_processed_block_id s)")
    case None
    then show ?thesis using "1.prems" by (simp add: crc_saver.simps [of s])
  next
    case (Some v)
    show ?thesis
      using "1.IH" [OF Some write_ids [OF "1.prems" Some]] Some
      by (simp add: crc_saver.simps [of s])
  qed
qed

lemma fire_ids:
  assumes "ids_inv s" "fire crc bs a s = Some s'"
  shows "ids_inv s'"
proof (cases a)
  case Read_block
  then have "s' = read_block bs s" using assms(2) by (auto split: if_splits)
  then show ?thesis using read_block_ids [OF assms(1)] by simp
next
  case (Throw e)
  then have "s' = read_catch e s" using assms(2) by (auto split: if_splits)
  then show ?thesis using assms(1) by (simp add: read_catch_def ids_inv_def)
next
  case End_of_file
  then have "s' = s\<lparr>control := Drain_loop\<rparr>" using assms(2) by (auto split: if_splits)
  then show ?thesis using assms(1) by (simp add: inv_control)
next
  case Check_size
  then have "s' = size_check s" using assms(2) by (auto split: if_splits)
  then show ?thesis
    using assms(1) crc_saver_ids [OF assms(1)] by (simp add: size_check_def inv_control)
next
  case Drain
  then have "s' = drain s" using assms(2) by (auto split: if_splits)
  moreover have "ids_inv (s\<lparr>log := log s @ [Sleep_ms 10]\<rparr>)"
    using assms(1) by (simp add: inv_log)
  ultimately show ?thesis unfolding drain_def using crc_saver_ids by simp
next
  case Finish
  then have "s' = finish s" using assms(2) by (auto split: if_splits)
  then show ?thesis using assms(1) by (simp add: finish_def ids_inv_def)
next
  case (Run_task n)
  then have "n < length (thread_pool s)"
    and "s' = run_task crc (thread_pool s ! n) (take_task n s)"
    using assms(2) by (auto split: if_splits)
  then show ?thesis using fire_run_task_ids(1) [OF assms(1)] by simp
qed


lemma run_ids:
  "ids_inv s \<Longrightarrow> run crc bs sched s = Some s' \<Longrightarrow> ids_inv s'"
proof (induction sched arbitrary: s)
  case Nil
  then show ?case by simp
next
  case (Cons a sched)
  from Cons.prems(2) obtain s1 where f: "fire crc bs a s = Some s1"
    and r: "run crc bs sched s1 = Some s'"
    by (auto split: option.splits)
  show ?case using Cons.IH [OF fire_ids [OF Cons.prems(1) f] r] .
qed

lemma reachable_ids:
  assumes "run crc bs sched (start input) = Some s"
  shows "ids_inv s"
proof -
  have "ids_inv (start input)" by (simp add: ids_inv_def start_def)
  then show ?thesis using assms by (rule run_ids)
qed

lemma fire_eof:
  assumes "eof_inv s" "fire crc bs a s = Some s'" "\<not> is_throw a"
  shows "eof_inv s'"
proof (cases a)
  case Read_block
  then have "s' = read_block bs s" using assms(2) by (auto split: if_splits)
  then show ?thesis by (simp add: eof_inv_def read_block_def Let_def)
next
  case (Throw e)
  then show ?thesis using assms(3) by simp
next
  case End_of_file
  then show ?thesis using assms(2) by (auto simp: eof_inv_def split: if_splits)
next
  case Check_size
  then have "s' = size_check s" using assms(2) by (auto split: if_splits)
  then show ?thesis by (simp add: eof_inv_def size_check_def)
next
  case Drain
  then have "s' = drain s" "control s = Drain_loop" using assms(2) by (auto split: if_splits)
  then show ?thesis using assms(1) by (simp add: eof_inv_def drain_def crc_saver_same)
next
  case Finish
  then have "s' = finish s" "control s = Drain_loop" using assms(2) by (auto split: if_splits)
  then show ?thesis using assms(1) by (simp add: eof_inv_def finish_def)
next
  case (Run_task n)
  then have s': "s' = run_task crc (thread_pool s ! n) (take_task n s)"
    using assms(2) by (auto split: if_splits)
  have "control s' = control s" "eofbit s' = eofbit s"
    unfolding s' by (simp_all add: run_task_def take_task_def Let_def split: prod.splits)
  then show ?thesis using assms(1) by (simp add: eof_inv_def)
qed

lemma run_eof:
  "eof_inv s \<Longrightarrow> run crc bs sched s = Some s' \<Longrightarrow> no_throw sched \<Longrightarrow> eof_inv s'"
proof (induction sched arbitrary: s)
  case Nil
  then show ?case by simp
next
  case (Cons a sched)
  from Cons.prems(2) obtain s1 where f: "fire crc bs a s = Some s1"
    and r: "run crc bs sched s1 = Some s'"
    by (auto split: option.splits)
  have n: "\<not> is_throw a" "no_throw sched" using Cons.prems(3) by (simp_all add: no_throw_def)
  show ?case using Cons.IH [OF fire_eof [OF Cons.prems(1) f n(1)] r n(2)] .
qed

text \<open>The pool is empty once every block has been written.\<close>

lemma pool_empty:
  assumes "ids_inv s" "last_processed_block_id s = block_counter s"
  shows "thread_pool s = []"
proof (rule ccontr)
  assume "thread_pool s \<noteq> []"
  then obtain t where t: "t \<in> set (thread_pool s)"
    by (meson last_in_set)
  let ?K = "fst ` set (block_crc_map s)"
  let ?T = "captured_block_counter ` set (thread_pool s)"
  have un: "?K \<union> ?T = {..<block_counter s}" and dj: "?K \<inter> ?T = {}"
    and sub: "{..<last_processed_block_id s} \<subseteq> ?K"
    using assms(1) unfolding ids_inv_def by simp_all
  have inT: "captured_block_counter t \<in> ?T" using t by (rule imageI)
  then have "captured_block_counter t \<in> {..<block_counter s}" using un by blast
  then have "captured_block_counter t \<in> ?K" using sub assms(2) by auto
  then show False using inT dj by blast
qed

text \<open>Nothing is removed from the map: it holds a record for each block whose task has run.\<close>

lemma store_size:
  assumes "ids_inv s"
  shows "map_size (block_crc_map s) + length (thread_pool s) = block_counter s"
proof -
  let ?K = "fst ` set (block_crc_map s)"
  let ?T = "captured_block_counter ` set (thread_pool s)"
  have dk: "distinct (map fst (block_crc_map s))"
    and dt: "distinct (map captured_block_counter (thread_pool s))"
    and dj: "?K \<inter> ?T = {}" and un: "?K \<union> ?T = {..<block_counter s}"
    using assms unfolding ids_inv_def by blast+
  have k: "card ?K = length (block_crc_map s)"
    using distinct_card [OF dk] by simp
  have t: "card ?T = length (thread_pool s)"
    using distinct_card [OF dt] by simp
  have "card (?K \<union> ?T) = card ?K + card ?T"
    using dj by (intro card_Un_disjoint) simp_all
  moreover have "card (?K \<union> ?T) = block_counter s"
    by (simp only: un card_lessThan)
  ultimately show ?thesis using k t by (simp add: map_size_def)
qed

text \<open>The state in which \<open>main\<close> returns from the loops.\<close>

lemma completed_run:
  assumes "0 < bs" "run crc bs sched (start input) = Some s" "control s = Returned c"
  shows "c = EXIT_SUCCESS"
    and "output_file_stream s = signature crc bs input (block_counter s)"
    and "block_counter s \<le> length input div bs + 1"
    and "no_throw sched \<Longrightarrow> block_counter s = length input div bs + 1"
    and "thread_pool s = []"
    and "map_size (block_crc_map s) = block_counter s"
proof -
  have inv: "pipeline_inv crc bs input s" using assms(1,2) by (rule reachable_inv)
  then have i: "ids_inv s" and d: "data_inv crc bs input s" and ct: "ctl_inv s"
    by (simp_all add: pipeline_inv_def)
  from ct assms(3) show "c = EXIT_SUCCESS" by (simp add: ctl_inv_def)
  from ct assms(3) have l: "last_processed_block_id s = block_counter s"
    by (simp add: ctl_inv_def)
  with d show "output_file_stream s = signature crc bs input (block_counter s)"
    by (simp add: data_inv_def)
  have st: "stream_ok bs input s" using d by (simp add: data_inv_def)
  show "block_counter s \<le> length input div bs + 1"
  proof (cases "eofbit s")
    case True
    then show ?thesis using st by (simp add: stream_ok_def)
  next
    case False
    then have "block_counter s * bs \<le> length input" using st by (simp add: stream_ok_def)
    then have "block_counter s \<le> length input div bs"
      using assms(1) by (simp add: less_eq_div_iff_mult_less_eq)
    then show ?thesis by simp
  qed
  show p: "thread_pool s = []" using i l by (rule pool_empty)
  show "map_size (block_crc_map s) = block_counter s"
    using store_size [OF i] p by simp
  show "block_counter s = length input div bs + 1" if "no_throw sched"
  proof -
    have "eof_inv (start input)" by (simp add: eof_inv_def start_def)
    then have "eof_inv s" using assms(2) that by (rule run_eof)
    then have "eofbit s" using assms(3) by (simp add: eof_inv_def)
    then show ?thesis using st by (simp add: stream_ok_def)
  qed
qed

section \<open>The output of a run\<close>

lemma run_append:
  "run crc bs (xs @ ys) s
     = (case run crc bs xs s of None \<Rightarrow> None | Some s' \<Rightarrow> run crc bs ys s')"
  by (induction xs arbitrary: s) (auto split: option.splits)

lemmas run_defs = read_block_def size_check_def run_task_def take_task_def map_insert_def
  map_find_def task_crc_def start_def drain_def finish_def crc_saver.simps map_size_def
  BLOCK_CRC_MAP_PROCESSING_SIZE_def Let_def read_catch_def

text \<open>
  C3: the number of four-byte records in the output is the input size divided by the block
  size and rounded up, and is 0 for an empty input. In the code the read loop tests
  \<open>eof()\<close> before it reads, and \<open>eofbit\<close> is set only by a \<open>read\<close> that comes up short:
  a run in which no allocation fails writes one record more than the number of whole
  blocks, \<open>input_size div block_size + 1\<close>. That is the rounded-up quotient when the block
  size does not divide the input size, and one more when it does: a last turn of the loop
  reads nothing and its task inserts the checksum of no bytes. An empty input gives one
  record, not none.
\<close>

theorem record_count:
  assumes "0 < bs" "no_throw sched" "run crc bs sched (start input) = Some s"
    "control s = Returned c"
  shows "length (output_file_stream s) = length input div bs + 1"
  using completed_run(2) [OF assms(1,3,4)] completed_run(4) [OF assms(1,3,4,2)]
  by (simp add: signature_def)

theorem record_count_empty_input:
  "run crc_32 1024 [Read_block, Run_task 0, Check_size, End_of_file, Drain, Finish] (start [])
     = Some \<lparr>input_file = [], eofbit = True, output_file_stream = [crc_32 []],
             block_counter = 1, last_processed_block_id = 1,
             block_crc_map = [(0, crc_32 [])], thread_pool = [],
             log = [Sleep_ms 10, Pool_stop, Cout ''done''],
             control = Returned EXIT_SUCCESS\<rparr>
   \<and> length [crc_32 []] = length ([] :: byte list) div 1024 + 1"
proof -
  let ?sched = "[Read_block, Run_task 0, Check_size, End_of_file, Drain, Finish]"
  let ?s = "\<lparr>input_file = [], eofbit = True, output_file_stream = [crc_32 []],
             block_counter = 1, last_processed_block_id = 1,
             block_crc_map = [(0, crc_32 [])], thread_pool = [],
             log = [Sleep_ms 10, Pool_stop, Cout ''done''],
             control = Returned EXIT_SUCCESS\<rparr>"
  have r: "run crc_32 1024 ?sched (start []) = Some ?s"
    by (simp add: run_defs)
  have n: "no_throw ?sched" by (simp add: no_throw_def)
  have c: "control ?s = Returned EXIT_SUCCESS" by simp
  have "length (output_file_stream ?s) = length ([] :: byte list) div 1024 + 1"
    using record_count [OF _ n r c] by simp
  then show ?thesis using r by simp
qed

text \<open>
  Whatever the order in which the tasks run, when \<open>main\<close> returns the output holds the
  checksums of the blocks that the read loop has read, in the order of the blocks, each
  once: block \<open>i\<close> is the bytes from \<open>i * bs\<close> up to \<open>(i + 1) * bs\<close>, and the loop reads
  the blocks up to number \<open>length input div bs\<close> unless an allocation fails before.
\<close>

lemma output_in_block_order:
  assumes "0 < bs" and "run crc bs sched (start input) = Some s" and "control s = Returned c"
  shows "output_file_stream s = signature crc bs input (block_counter s)
         \<and> block_counter s \<le> length input div bs + 1
         \<and> (no_throw sched \<longrightarrow>
               output_file_stream s = signature crc bs input (length input div bs + 1)
               \<and> (\<forall>sched' s' c'.
                     no_throw sched' \<and> run crc bs sched' (start input) = Some s'
                       \<and> control s' = Returned c'
                     \<longrightarrow> output_file_stream s' = output_file_stream s))"
proof -
  have a: "output_file_stream s = signature crc bs input (block_counter s)"
    using assms by (rule completed_run(2))
  have b: "block_counter s \<le> length input div bs + 1"
    using assms by (rule completed_run(3))
  have full: "output_file_stream s' = signature crc bs input (length input div bs + 1)"
    if "no_throw sched'" "run crc bs sched' (start input) = Some s'" "control s' = Returned c'"
    for sched' s' c'
    using completed_run(2) [OF assms(1) that(2,3)] completed_run(4) [OF assms(1) that(2,3,1)]
    by simp
  show ?thesis
  proof (intro conjI impI allI)
    show "output_file_stream s = signature crc bs input (block_counter s)" by (rule a)
    show "block_counter s \<le> length input div bs + 1" by (rule b)
    show "output_file_stream s = signature crc bs input (length input div bs + 1)"
      if "no_throw sched" using full [OF that assms(2,3)] .
    show "output_file_stream s' = output_file_stream s"
      if "no_throw sched"
        "no_throw sched' \<and> run crc bs sched' (start input) = Some s' \<and> control s' = Returned c'"
      for sched' s' c'
      using full [OF that(1) assms(2,3)] full [of sched' s' c'] that(2) by simp
  qed
qed

lemma output_in_block_order_example:
  "run crc_32 2
       [Read_block, Check_size, Read_block, Check_size, Read_block, Check_size,
        Run_task 2, Run_task 0, Run_task 0, End_of_file, Drain, Finish]
       (start [1, 2, 3, 4, 5])
     = Some \<lparr>input_file = [], eofbit = True,
             output_file_stream = [crc_32 [1, 2], crc_32 [3, 4], crc_32 [5]],
             block_counter = 3, last_processed_block_id = 3,
             block_crc_map = [(1, crc_32 [3, 4]), (0, crc_32 [1, 2]), (2, crc_32 [5])],
             thread_pool = [],
             log = [Sleep_ms 10, Pool_stop, Cout ''done''],
             control = Returned EXIT_SUCCESS\<rparr>
   \<and> [crc_32 [1, 2], crc_32 [3, 4], crc_32 [5]] = signature crc_32 2 [1, 2, 3, 4, 5] 3"
proof -
  let ?sched = "[Read_block, Check_size, Read_block, Check_size, Read_block, Check_size,
        Run_task 2, Run_task 0, Run_task 0, End_of_file, Drain, Finish]"
  let ?s = "\<lparr>input_file = [], eofbit = True,
             output_file_stream = [crc_32 [1, 2], crc_32 [3, 4], crc_32 [5]],
             block_counter = 3, last_processed_block_id = 3,
             block_crc_map = [(1, crc_32 [3, 4]), (0, crc_32 [1, 2]), (2, crc_32 [5])],
             thread_pool = [],
             log = [Sleep_ms 10, Pool_stop, Cout ''done''],
             control = Returned EXIT_SUCCESS\<rparr>"
  have r: "run crc_32 2 ?sched (start [1, 2, 3, 4, 5]) = Some ?s"
    by (simp add: run_defs)
  have c: "control ?s = Returned EXIT_SUCCESS" by simp
  have n: "no_throw ?sched" by (simp add: no_throw_def)
  have p: "0 < (2 :: nat)" by simp
  have "output_file_stream ?s
          = signature crc_32 2 [1, 2, 3, 4, 5] (length [1, 2, 3, 4, 5 :: byte] div 2 + 1)"
    using output_in_block_order [OF p r c] n by blast
  moreover have "length [1, 2, 3, 4, 5 :: byte] div 2 + 1 = 3" by simp
  ultimately have "output_file_stream ?s = signature crc_32 2 [1, 2, 3, 4, 5] 3"
    by (simp only:)
  then show ?thesis using r by simp
qed

text \<open>
  C2: for every input and block size the output decodes to the checksums of block 0,
  block 1, ... of the input, in this order, with none left out and none twice, whatever
  the order in which the tasks finish; two runs on the same input and block size give the
  same bytes. The order holds (\<open>output_in_block_order\<close>), the rest does not. For an input
  of 2048 bytes and blocks of 1024 bytes the input has two blocks, and the output has
  three records: a third turn of the read loop reads nothing and its task inserts the
  checksum of no bytes (the defect of C3). And a second run on the same input, in which
  the allocation of the second buffer fails, leaves the read loop, writes the first record
  only and returns \<open>EXIT_SUCCESS\<close> as the first run does (the defect of C6): the two
  outputs differ.
\<close>

theorem output_has_extra_record_and_can_be_cut_short:
  "map_option (\<lambda>s. (output_file_stream s, control s))
     (run crc_32 1024
        [Read_block, Run_task 0, Check_size, Read_block, Run_task 0, Check_size,
         Read_block, Run_task 0, Check_size, End_of_file, Drain, Finish]
        (start (replicate 2048 7)))
     = Some ([crc_32 (replicate 1024 7), crc_32 (replicate 1024 7), crc_32 []],
             Returned EXIT_SUCCESS)
   \<and> map_option (\<lambda>s. (output_file_stream s, control s))
     (run crc_32 1024
        [Read_block, Run_task 0, Check_size, Throw (Bad_alloc ''std::bad_alloc''),
         Drain, Finish]
        (start (replicate 2048 7)))
     = Some ([crc_32 (replicate 1024 7)], Returned EXIT_SUCCESS)"
  by (simp add: run_defs)

lemma block_at_length: "length (block_at bs input i) = min bs (length input - i * bs)"
  by (simp add: block_at_def min.commute)

text \<open>
  A task that waits in the pool: the first \<open>readed_size\<close> bytes of its buffer are its block
  of the input, and the buffer has the length of a whole block.
\<close>

lemma pending_task_holds_block:
  assumes "0 < bs" "run crc bs sched (start input) = Some s" "t \<in> set (thread_pool s)"
  shows "task_crc crc t = crc (block_at bs input (captured_block_counter t))
         \<and> take (readed_size t) (buffer_ptr t) = block_at bs input (captured_block_counter t)
         \<and> readed_size t = min bs (length input - captured_block_counter t * bs)
         \<and> length (buffer_ptr t) = bs"
proof -
  have "pipeline_inv crc bs input s" using assms(1,2) by (rule reachable_inv)
  then have "task_ok bs input t"
    using assms(3) by (simp add: pipeline_inv_def data_inv_def)
  then have a: "take (readed_size t) (buffer_ptr t) = block_at bs input (captured_block_counter t)"
    and b: "readed_size t = length (block_at bs input (captured_block_counter t))"
    and c: "length (buffer_ptr t) = bs"
    unfolding task_ok_def by blast+
  have "task_crc crc t = crc (block_at bs input (captured_block_counter t))"
    using a by (simp add: task_crc_def)
  then show ?thesis using a b c by (simp only: block_at_length simp_thms)
qed

text \<open>
  C4: every checksum task computes its checksum over exactly the bytes that were read for
  its block, \<open>readed_size\<close> of them, and never over the whole buffer, whose length is the
  block size. In every state of every run, the task at any place of the pool, when it
  runs, adds to the map the record of its block number with the checksum of the first
  \<open>readed_size\<close> bytes of its buffer; these bytes are its block of the input, short for
  the last block; and every record that the tasks have put in the map so far is the
  checksum of the block of its number. For an input of 2500 bytes and blocks of 1024
  bytes the three records are checksums of 1024, 1024 and 452 bytes.
\<close>

theorem task_inserts_checksum_of_bytes_read:
  assumes "0 < bs" "run crc bs sched (start input) = Some s" "i < length (thread_pool s)"
  shows "fire crc bs (Run_task i) s
           = Some ((take_task i s)\<lparr>block_crc_map :=
                      (captured_block_counter (thread_pool s ! i),
                       crc (take (readed_size (thread_pool s ! i))
                                 (buffer_ptr (thread_pool s ! i))))
                      # block_crc_map s\<rparr>)
         \<and> take (readed_size (thread_pool s ! i)) (buffer_ptr (thread_pool s ! i))
             = block_at bs input (captured_block_counter (thread_pool s ! i))
         \<and> readed_size (thread_pool s ! i)
             = min bs (length input - captured_block_counter (thread_pool s ! i) * bs)
         \<and> length (buffer_ptr (thread_pool s ! i)) = bs
         \<and> (\<forall>kv \<in> set (block_crc_map s). snd kv = crc (block_at bs input (fst kv)))"
proof -
  define t where "t = thread_pool s ! i"
  have mem: "t \<in> set (thread_pool s)" using assms(3) by (simp add: t_def)
  have pend: "take (readed_size t) (buffer_ptr t) = block_at bs input (captured_block_counter t)"
    "readed_size t = min bs (length input - captured_block_counter t * bs)"
    "length (buffer_ptr t) = bs"
    using pending_task_holds_block [OF assms(1,2) mem] by blast+
  have "ids_inv s" using assms(2) by (rule reachable_ids)
  then have "fst ` set (block_crc_map s) \<inter> captured_block_counter ` set (thread_pool s) = {}"
    unfolding ids_inv_def by simp
  then have "captured_block_counter t \<notin> fst ` set (block_crc_map s)"
    using mem by blast
  then have fresh: "captured_block_counter t \<notin> fst ` set (block_crc_map (take_task i s))"
    by (simp add: take_task_def)
  have m: "block_crc_map (take_task i s) = block_crc_map s" by (simp add: take_task_def)
  have "run_task crc t (take_task i s)
          = (take_task i s)\<lparr>block_crc_map :=
               (captured_block_counter t, crc (take (readed_size t) (buffer_ptr t)))
               # block_crc_map s\<rparr>"
    unfolding run_task_fresh [OF fresh] m task_crc_def ..
  then have f: "fire crc bs (Run_task i) s
          = Some ((take_task i s)\<lparr>block_crc_map :=
               (captured_block_counter t, crc (take (readed_size t) (buffer_ptr t)))
               # block_crc_map s\<rparr>)"
    using assms(3) by (simp add: t_def)
  have "pipeline_inv crc bs input s" using assms(1,2) by (rule reachable_inv)
  then have e: "\<forall>kv \<in> set (block_crc_map s). snd kv = crc (block_at bs input (fst kv))"
    by (simp add: pipeline_inv_def data_inv_def)
  show ?thesis
    using f pend e unfolding t_def by blast
qed

theorem task_inserts_checksum_of_bytes_read_witness:
  "run crc_32 1024 [Read_block, Check_size, Read_block, Check_size, Read_block]
       (start (replicate 2500 7))
     = Some \<lparr>input_file = [], eofbit = True, output_file_stream = [],
             block_counter = 3, last_processed_block_id = 0, block_crc_map = [],
             thread_pool =
               [\<lparr>buffer_ptr = replicate 1024 7, readed_size = 1024, captured_block_counter = 0\<rparr>,
                \<lparr>buffer_ptr = replicate 1024 7, readed_size = 1024, captured_block_counter = 1\<rparr>,
                \<lparr>buffer_ptr = replicate 452 7 @ replicate 572 0, readed_size = 452,
                  captured_block_counter = 2\<rparr>],
             log = [], control = Size_check\<rparr>
   \<and> map_option block_crc_map
        (run crc_32 1024
           [Read_block, Check_size, Read_block, Check_size, Read_block,
            Run_task 2, Run_task 0, Run_task 0]
           (start (replicate 2500 7)))
       = Some [(1, crc_32 (replicate 1024 7)), (0, crc_32 (replicate 1024 7)),
               (2, crc_32 (replicate 452 7))]"
proof -
  let ?sched = "[Read_block, Check_size, Read_block, Check_size, Read_block]"
  let ?t0 = "\<lparr>buffer_ptr = replicate 1024 (7 :: byte), readed_size = 1024,
               captured_block_counter = 0\<rparr>"
  let ?t1 = "\<lparr>buffer_ptr = replicate 1024 (7 :: byte), readed_size = 1024,
               captured_block_counter = 1\<rparr>"
  let ?t2 = "\<lparr>buffer_ptr = replicate 452 7 @ replicate 572 (0 :: byte), readed_size = 452,
               captured_block_counter = 2\<rparr>"
  define S where "S = \<lparr>input_file = [], eofbit = True, output_file_stream = [],
             block_counter = 3, last_processed_block_id = 0, block_crc_map = [],
             thread_pool = [?t0, ?t1, ?t2], log = [], control = Size_check\<rparr>"
  have r: "run crc_32 1024 ?sched (start (replicate 2500 7)) = Some S"
    by (simp add: run_defs S_def)
  have p: "0 < (1024 :: nat)" by simp
  have i: "2 < length (thread_pool S)" by (simp add: S_def)
  have t: "thread_pool S ! 2 = ?t2" by (simp add: S_def)
  have "fire crc_32 1024 (Run_task 2) S
          = Some ((take_task 2 S)\<lparr>block_crc_map :=
                      (captured_block_counter (thread_pool S ! 2),
                       crc_32 (take (readed_size (thread_pool S ! 2))
                                    (buffer_ptr (thread_pool S ! 2))))
                      # block_crc_map S\<rparr>)"
    using task_inserts_checksum_of_bytes_read [OF p r i] by blast
  then have f: "fire crc_32 1024 (Run_task 2) S
          = Some (S\<lparr>thread_pool := [?t0, ?t1],
                    block_crc_map := [(2, crc_32 (replicate 452 7))]\<rparr>)"
    unfolding t by (simp add: S_def take_task_def)
  have rest: "run crc_32 1024 [Run_task 0, Run_task 0]
                (S\<lparr>thread_pool := [?t0, ?t1],
                    block_crc_map := [(2, crc_32 (replicate 452 7))]\<rparr>)
          = Some (S\<lparr>thread_pool := [],
                    block_crc_map := [(1, crc_32 (replicate 1024 7)),
                                      (0, crc_32 (replicate 1024 7)),
                                      (2, crc_32 (replicate 452 7))]\<rparr>)"
    by (simp add: run_defs S_def)
  have "run crc_32 1024 (?sched @ Run_task 2 # [Run_task 0, Run_task 0])
           (start (replicate 2500 7))
          = Some (S\<lparr>thread_pool := [],
                    block_crc_map := [(1, crc_32 (replicate 1024 7)),
                                      (0, crc_32 (replicate 1024 7)),
                                      (2, crc_32 (replicate 452 7))]\<rparr>)"
  proof -
    have "run crc_32 1024 (Run_task 2 # [Run_task 0, Run_task 0]) S
            = run crc_32 1024 [Run_task 0, Run_task 0]
                (S\<lparr>thread_pool := [?t0, ?t1],
                    block_crc_map := [(2, crc_32 (replicate 452 7))]\<rparr>)"
      by (subst run.simps(2)) (simp only: f option.case)
    then show ?thesis
      unfolding run_append r by (simp only: option.case rest)
  qed
  then have all: "map_option block_crc_map
        (run crc_32 1024
           [Read_block, Check_size, Read_block, Check_size, Read_block,
            Run_task 2, Run_task 0, Run_task 0]
           (start (replicate 2500 7)))
       = Some [(1, crc_32 (replicate 1024 7)), (0, crc_32 (replicate 1024 7)),
               (2, crc_32 (replicate 452 7))]"
    by simp
  show ?thesis using r all unfolding S_def by blast
qed

section \<open>The closure \<open>crc_saver\<close>\<close>

lemma crc_saver_None:
  "map_find (block_crc_map s) (last_processed_block_id s) = None \<Longrightarrow> crc_saver s = s"
  by (simp add: crc_saver.simps [of s])

lemma crc_saver_Some:
  "map_find (block_crc_map s) (last_processed_block_id s) = Some v \<Longrightarrow>
     crc_saver s = crc_saver (s\<lparr>output_file_stream := output_file_stream s @ [v],
                                 last_processed_block_id := last_processed_block_id s + 1\<rparr>)"
  by (simp add: crc_saver.simps [of s])

lemma crc_saver_run:
  "\<exists>n ws. crc_saver s = s\<lparr>output_file_stream := output_file_stream s @ ws,
                            last_processed_block_id := last_processed_block_id s + n\<rparr>
          \<and> map Some ws = map (map_find (block_crc_map s))
                              [last_processed_block_id s ..< last_processed_block_id s + n]
          \<and> map_find (block_crc_map s) (last_processed_block_id s + n) = None"
proof (induction s rule: crc_saver.induct)
  case (1 s)
  let ?m = "block_crc_map s"
  let ?c = "last_processed_block_id s"
  show ?case
  proof (cases "map_find ?m ?c")
    case None
    have "crc_saver s = s\<lparr>output_file_stream := output_file_stream s @ [],
                            last_processed_block_id := ?c + 0\<rparr>"
      using crc_saver_None [OF None] by simp
    moreover have "map Some [] = map (map_find ?m) [?c ..< ?c + 0]" by simp
    moreover have "map_find ?m (?c + 0) = None" using None by simp
    ultimately show ?thesis by blast
  next
    case (Some v)
    let ?s' = "s\<lparr>output_file_stream := output_file_stream s @ [v],
                  last_processed_block_id := ?c + 1\<rparr>"
    from "1.IH" [OF Some] obtain n ws where
      eq: "crc_saver ?s' = ?s'\<lparr>output_file_stream := output_file_stream ?s' @ ws,
                                 last_processed_block_id := last_processed_block_id ?s' + n\<rparr>"
      and ws: "map Some ws = map (map_find (block_crc_map ?s'))
                 [last_processed_block_id ?s' ..< last_processed_block_id ?s' + n]"
      and stop: "map_find (block_crc_map ?s') (last_processed_block_id ?s' + n) = None"
      by blast
    have a: "crc_saver s = s\<lparr>output_file_stream := output_file_stream s @ (v # ws),
                              last_processed_block_id := ?c + Suc n\<rparr>"
      using crc_saver_Some [OF Some] eq by simp
    have "[?c ..< ?c + Suc n] = ?c # [?c + 1 ..< ?c + 1 + n]"
      by (simp add: upt_conv_Cons)
    then have b: "map Some (v # ws) = map (map_find ?m) [?c ..< ?c + Suc n]"
      using ws Some by simp
    have c: "map_find ?m (?c + Suc n) = None" using stop by simp
    from a b c show ?thesis by blast
  qed
qed


text \<open>
  C1, as the code has it: for every state of the store and every cursor, \<open>crc_saver\<close>
  writes exactly the records with the numbers cursor, cursor + 1, ... for as long as each
  is in the map, in this order, and stops at the first number that is missing; it moves
  the cursor past the records written, writes nothing when the cursor's number is missing,
  and leaves the map as it was: no record is removed. After the insertion of the numbers
  0, 1, 2 in any order, a call with the cursor at 0 writes the three records in the order
  0, 1, 2; with only 1 and 2 in the map it writes nothing.
\<close>

theorem crc_saver_writes_contiguous_run:
  "(\<exists>n ws. crc_saver s = s\<lparr>output_file_stream := output_file_stream s @ ws,
                              last_processed_block_id := last_processed_block_id s + n\<rparr>
            \<and> map Some ws = map (map_find (block_crc_map s))
                                [last_processed_block_id s ..< last_processed_block_id s + n]
            \<and> map_find (block_crc_map s) (last_processed_block_id s + n) = None)
   \<and> (map_find (block_crc_map s) (last_processed_block_id s) = None \<longrightarrow> crc_saver s = s)
   \<and> block_crc_map (crc_saver s) = block_crc_map s
   \<and> (kvs \<in> {[(0, a), (1, b), (2, c)], [(0, a), (2, c), (1, b)], [(1, b), (0, a), (2, c)],
               [(1, b), (2, c), (0, a)], [(2, c), (0, a), (1, b)], [(2, c), (1, b), (0, a)]}
        \<longrightarrow> output_file_stream (crc_saver ((start input)\<lparr>block_crc_map := inserts [] kvs\<rparr>))
              = [a, b, c])
   \<and> (kvs' \<in> {[(1, b), (2, c)], [(2, c), (1, b)]}
        \<longrightarrow> output_file_stream (crc_saver ((start input)\<lparr>block_crc_map := inserts [] kvs'\<rparr>))
              = [])"
proof (intro conjI impI)
  show "\<exists>n ws. crc_saver s = s\<lparr>output_file_stream := output_file_stream s @ ws,
                              last_processed_block_id := last_processed_block_id s + n\<rparr>
            \<and> map Some ws = map (map_find (block_crc_map s))
                                [last_processed_block_id s ..< last_processed_block_id s + n]
            \<and> map_find (block_crc_map s) (last_processed_block_id s + n) = None"
    by (rule crc_saver_run)
  show "crc_saver s = s" if "map_find (block_crc_map s) (last_processed_block_id s) = None"
    using that by (rule crc_saver_None)
  show "block_crc_map (crc_saver s) = block_crc_map s"
    by (simp add: crc_saver_same)
  show "output_file_stream (crc_saver ((start input)\<lparr>block_crc_map := inserts [] kvs\<rparr>))
          = [a, b, c]"
    if "kvs \<in> {[(0, a), (1, b), (2, c)], [(0, a), (2, c), (1, b)], [(1, b), (0, a), (2, c)],
               [(1, b), (2, c), (0, a)], [(2, c), (0, a), (1, b)], [(2, c), (1, b), (0, a)]}"
    using that
    by (auto simp: inserts_def map_insert_def map_find_def start_def crc_saver.simps)
  show "output_file_stream (crc_saver ((start input)\<lparr>block_crc_map := inserts [] kvs'\<rparr>)) = []"
    if "kvs' \<in> {[(1, b), (2, c)], [(2, c), (1, b)]}"
    using that
    by (auto simp: inserts_def map_insert_def map_find_def start_def crc_saver.simps)
qed

theorem crc_saver_writes_contiguous_run_witness:
  "crc_saver ((start [])\<lparr>block_crc_map := [(1, 11), (0, 10), (3, 13)]\<rparr>)
     = (start [])\<lparr>block_crc_map := [(1, 11), (0, 10), (3, 13)],
                  output_file_stream := [10, 11], last_processed_block_id := 2\<rparr>
   \<and> output_file_stream
         (crc_saver ((start [])\<lparr>block_crc_map := inserts [] [(2, 12), (0, 10), (1, 11)]\<rparr>))
       = [10, 11, 12]
   \<and> output_file_stream
         (crc_saver ((start [])\<lparr>block_crc_map := inserts [] [(2, 12), (1, 11)]\<rparr>))
       = []"
proof -
  let ?s = "(start [])\<lparr>block_crc_map := [(1, 11), (0, 10), (3, 13)]\<rparr>"
  have e1: "crc_saver ?s = ?s\<lparr>output_file_stream := [10, 11], last_processed_block_id := 2\<rparr>"
    by (simp add: map_find_def start_def crc_saver.simps)
  have e2: "output_file_stream
         (crc_saver ((start [])\<lparr>block_crc_map := inserts [] [(2, 12), (0, 10), (1, 11)]\<rparr>))
       = [10, 11, 12]"
    using crc_saver_writes_contiguous_run
      [of _ "[(2, 12), (0, 10), (1, 11)]" 10 11 12 "[]" "[(2, 12), (1, 11)]"]
    by blast
  have e3: "output_file_stream
         (crc_saver ((start [])\<lparr>block_crc_map := inserts [] [(2, 12), (1, 11)]\<rparr>))
       = []"
    using crc_saver_writes_contiguous_run
      [of _ "[(2, 12), (0, 10), (1, 11)]" 10 11 12 "[]" "[(2, 12), (1, 11)]"]
    by blast
  show ?thesis using e1 e2 e3 by simp
qed

text \<open>
  The claim C1 has the records removed from the store. A record that \<open>crc_saver\<close> has
  written is still in the map afterwards:
\<close>

theorem crc_saver_leaves_record_in_map:
  "output_file_stream (crc_saver ((start [])\<lparr>block_crc_map := [(0, 7)]\<rparr>)) = [7]
   \<and> block_crc_map (crc_saver ((start [])\<lparr>block_crc_map := [(0, 7)]\<rparr>)) = [(0, 7)]
   \<and> map_size (block_crc_map (crc_saver ((start [])\<lparr>block_crc_map := [(0, 7)]\<rparr>))) = 1"
  by (simp add: map_find_def start_def crc_saver.simps map_size_def)

section \<open>Duplicate block numbers, allocation failure, equal file names\<close>

text \<open>
  C7: the read loop gives each task its own value of \<open>block_counter\<close>, so in every state
  of every run no task in the pool has a block number that is in the map: the branch of
  the task for a failed \<open>insert\<close> is never taken, and a task that runs adds its record and
  prints nothing. If the block number were in the map, the task would print
  \<^verbatim>\<open>block N insert error\<close> to the error stream and leave the map as it was; it does not
  try again.
\<close>

theorem duplicate_insert_unreachable_and_reported:
  "(run crc bs sched (start input) = Some s \<longrightarrow>
      (\<forall>t \<in> set (thread_pool s).
         map_find (block_crc_map s) (captured_block_counter t) = None))
   \<and> (map_find (block_crc_map s') (captured_block_counter t') = None \<longrightarrow>
        run_task crc t' s'
          = s'\<lparr>block_crc_map := (captured_block_counter t', task_crc crc t') # block_crc_map s'\<rparr>)
   \<and> (map_find (block_crc_map s') (captured_block_counter t') \<noteq> None \<longrightarrow>
        run_task crc t' s'
          = s'\<lparr>log := log s' @ [Cerr (''block '' @ decimal_string (captured_block_counter t')
                                         @ '' insert error'')]\<rparr>)"
proof (intro conjI impI ballI)
  fix t
  assume r: "run crc bs sched (start input) = Some s" and t: "t \<in> set (thread_pool s)"
  have "ids_inv s" using r by (rule reachable_ids)
  then have "fst ` set (block_crc_map s) \<inter> captured_block_counter ` set (thread_pool s) = {}"
    unfolding ids_inv_def by simp
  then have "captured_block_counter t \<notin> fst ` set (block_crc_map s)"
    using t by blast
  then show "map_find (block_crc_map s) (captured_block_counter t) = None"
    by (simp add: map_find_None_iff)
next
  assume "map_find (block_crc_map s') (captured_block_counter t') = None"
  then have "captured_block_counter t' \<notin> fst ` set (block_crc_map s')"
    by (simp add: map_find_None_iff)
  then show "run_task crc t' s'
          = s'\<lparr>block_crc_map := (captured_block_counter t', task_crc crc t') # block_crc_map s'\<rparr>"
    by (rule run_task_fresh)
next
  assume "map_find (block_crc_map s') (captured_block_counter t') \<noteq> None"
  then have "captured_block_counter t' \<in> fst ` set (block_crc_map s')"
    by (simp add: map_find_None_iff)
  then show "run_task crc t' s'
          = s'\<lparr>log := log s' @ [Cerr (''block '' @ decimal_string (captured_block_counter t')
                                         @ '' insert error'')]\<rparr>"
    by (rule run_task_duplicate)
qed

theorem duplicate_insert_unreachable_and_reported_witness:
  "run crc_32 2 [Read_block, Check_size, Read_block, Run_task 0] (start [1, 2, 3])
     = Some \<lparr>input_file = [], eofbit = True, output_file_stream = [],
             block_counter = 2, last_processed_block_id = 0,
             block_crc_map = [(0, crc_32 [1, 2])],
             thread_pool = [\<lparr>buffer_ptr = [3, 0], readed_size = 1, captured_block_counter = 1\<rparr>],
             log = [], control = Size_check\<rparr>
   \<and> map_find [(0, crc_32 [1, 2])] 1 = None
   \<and> run_task crc_32 \<lparr>buffer_ptr = [3, 0], readed_size = 1, captured_block_counter = 1\<rparr>
         ((start [])\<lparr>block_crc_map := [(0, crc_32 [1, 2])]\<rparr>)
       = (start [])\<lparr>block_crc_map := [(1, crc_32 [3]), (0, crc_32 [1, 2])]\<rparr>
   \<and> run_task crc_32 \<lparr>buffer_ptr = [9, 0], readed_size = 1, captured_block_counter = 0\<rparr>
         ((start [])\<lparr>block_crc_map := [(0, crc_32 [1, 2])]\<rparr>)
       = (start [])\<lparr>block_crc_map := [(0, crc_32 [1, 2])],
                    log := [Cerr ''block 0 insert error'']\<rparr>"
proof -
  let ?t1 = "\<lparr>buffer_ptr = [3, 0 :: byte], readed_size = 1, captured_block_counter = 1\<rparr>"
  let ?t0 = "\<lparr>buffer_ptr = [9, 0 :: byte], readed_size = 1, captured_block_counter = 0\<rparr>"
  let ?s = "\<lparr>input_file = [], eofbit = True, output_file_stream = [],
             block_counter = 2, last_processed_block_id = 0,
             block_crc_map = [(0, crc_32 [1, 2])],
             thread_pool = [?t1], log = [], control = Size_check\<rparr>"
  let ?s' = "(start [])\<lparr>block_crc_map := [(0, crc_32 [1, 2])]\<rparr>"
  have r: "run crc_32 2 [Read_block, Check_size, Read_block, Run_task 0] (start [1, 2, 3])
             = Some ?s"
    by (simp add: run_defs)
  have "\<forall>t \<in> set (thread_pool ?s).
          map_find (block_crc_map ?s) (captured_block_counter t) = None"
    using duplicate_insert_unreachable_and_reported
      [where crc = crc_32 and bs = 2 and input = "[1, 2, 3]" and s = ?s] r
    by blast
  then have a: "map_find (block_crc_map ?s) (captured_block_counter ?t1) = None"
    by simp
  have n: "map_find (block_crc_map ?s') (captured_block_counter ?t1) = None"
    by (simp add: map_find_def start_def)
  have b: "run_task crc_32 ?t1 ?s'
             = ?s'\<lparr>block_crc_map := (captured_block_counter ?t1, task_crc crc_32 ?t1)
                                       # block_crc_map ?s'\<rparr>"
    using duplicate_insert_unreachable_and_reported [of crc_32 _ _ _ _ ?s' ?t1] n by blast
  have d: "map_find (block_crc_map ?s') (captured_block_counter ?t0) \<noteq> None"
    by (simp add: map_find_def start_def)
  have c: "run_task crc_32 ?t0 ?s'
             = ?s'\<lparr>log := log ?s' @ [Cerr (''block '' @ decimal_string (captured_block_counter ?t0)
                                         @ '' insert error'')]\<rparr>"
    using duplicate_insert_unreachable_and_reported [of crc_32 _ _ _ _ ?s' ?t0] d by blast
  show ?thesis
    using r a b c by (simp add: task_crc_def start_def decimal_string.simps)
qed

text \<open>The task of the other revision says nothing when its block number is in the map.\<close>

lemma run_task_silent_duplicate:
  "map_find (block_crc_map s) (captured_block_counter t) \<noteq> None \<Longrightarrow> run_task_silent crc t s = s"
  by (simp add: run_task_silent_def map_insert_def)

text \<open>
  C6: a failed allocation of the buffer is not fatal and not shown to the user: the read
  loop sleeps 10 ms and reads the same block again. In \<^verbatim>\<open>signature.cpp\<close> the handler is
  \<open>catch (std::exception & e)\<close> for every exception, \<open>bad_alloc\<close> too: it prints \<open>what()\<close>
  to the error stream and leaves the read loop for good (\<open>break\<close>), without a sleep and
  without another read; the rest of the input is never read, and \<open>main\<close> goes on to write
  what was read and returns \<open>EXIT_SUCCESS\<close>. Here the first allocation fails:
\<close>

theorem allocation_failure_ends_read_loop:
  "fire crc bs (Throw (Bad_alloc w)) (start input)
     = Some ((start input)\<lparr>log := [Cerr w], control := Drain_loop\<rparr>)
   \<and> run crc bs [Throw (Bad_alloc w), Finish] (start input)
     = Some ((start input)\<lparr>log := [Cerr w, Pool_stop, Cout ''done''],
                            control := Returned EXIT_SUCCESS\<rparr>)"
  by (simp add: start_def read_catch_def finish_def)

text \<open>The handler of the other revision sleeps 10 ms and repeats the turn of the loop.\<close>

lemma read_catch_retry_bad_alloc:
  "read_catch_retry (Bad_alloc w) s = s\<lparr>log := log s @ [Sleep_ms 10], control := Read_loop\<rparr>"
  by (simp add: read_catch_retry_def)

text \<open>
  C9, as the code has it: when the options were parsed without an exception and the input
  path equals the output path, \<open>main\<close> opens no stream, so that no file is created or
  truncated, and it returns before the loops; it prints the conflict to the error stream
  and returns \<open>EXIT_FAILURE\<close>, unless help was asked for (or there was no argument at
  all): the test for help comes first, and then the usage goes to the standard output and
  \<open>main\<close> returns \<open>EXIT_SUCCESS\<close>.
\<close>

theorem same_files_no_file_io:
  assumes "input_file_name opts = output_file_name opts"
  shows "main_startup argc (Inr opts) can_create files =
           (if count_help opts \<or> argc = 1 then ([Cout_usage], files, Exit EXIT_SUCCESS)
            else ([Cerr ''input and output files are same''], files, Exit EXIT_FAILURE))"
  using assms by (simp add: main_startup_def)

theorem same_files_no_file_io_witness:
  "main_startup 5 (Inr \<lparr>count_help = False, input_file_name = ''a.bin'',
                         output_file_name = ''a.bin'',
                         block_size_value = block_size_of BLOCK_SIZE_MEGABYTE\<rparr>)
       (\<lambda>name. True) [''a.bin'' \<mapsto> [1, 2, 3]]
     = ([Cerr ''input and output files are same''], [''a.bin'' \<mapsto> [1, 2, 3]],
        Exit EXIT_FAILURE)"
  using same_files_no_file_io
    [of "\<lparr>count_help = False, input_file_name = ''a.bin'', output_file_name = ''a.bin'',
          block_size_value = block_size_of BLOCK_SIZE_MEGABYTE\<rparr>"
        5 "\<lambda>name. True" "[''a.bin'' \<mapsto> [1, 2, 3]]"]
  by simp

text \<open>
  The claim C9 has the conflict reported and a non-zero exit code whenever the two paths
  are equal. With \<^verbatim>\<open>-h -i a.bin -o a.bin\<close> nothing is reported and the exit code is 0:
\<close>

theorem same_files_with_help_exits_zero:
  "main_startup 6 (Inr \<lparr>count_help = True, input_file_name = ''a.bin'',
                         output_file_name = ''a.bin'',
                         block_size_value = block_size_of BLOCK_SIZE_MEGABYTE\<rparr>)
       (\<lambda>name. True) [''a.bin'' \<mapsto> [1, 2, 3]]
     = ([Cout_usage], [''a.bin'' \<mapsto> [1, 2, 3]], Exit EXIT_SUCCESS)"
  by (simp add: main_startup_def)

section \<open>The size of the map\<close>

lemma starve_Suc: "starve (Suc n) = starve n @ [Read_block, Check_size, Run_task 1]"
proof -
  have "replicate (Suc n) x = replicate n x @ [x]" for x :: "action list"
    by (simp add: replicate_append_same)
  then show ?thesis
    by (simp only: starve_def concat_append concat.simps append_Nil2 append_assoc)
qed

text \<open>Reading a whole block.\<close>

lemma read_block_full:
  assumes "input_file s = drop (k * bs) input" "(k + 1) * bs \<le> length input"
  shows "read_block bs s
           = s\<lparr>input_file := drop ((k + 1) * bs) input, eofbit := False,
                thread_pool := thread_pool s @
                  [\<lparr>buffer_ptr = block_at bs input k, readed_size = bs,
                    captured_block_counter = block_counter s\<rparr>],
                block_counter := block_counter s + 1, control := Size_check\<rparr>"
proof -
  have len: "bs \<le> length (input_file s)"
    using assms by simp
  then have m: "min bs (length (input_file s)) = bs" by simp
  have d: "drop bs (input_file s) = drop ((k + 1) * bs) input"
    by (simp add: assms(1) add.commute)
  have t: "take bs (input_file s) = block_at bs input k"
    by (simp add: assms(1) block_at_def)
  show ?thesis
    unfolding read_block_def Let_def length_replicate m d t
    using len by simp
qed

lemma starved_find:
  "map_find (block_crc_map (starved crc bs input n)) k
     = (if 1 \<le> k \<and> k \<le> n then Some (crc (block_at bs input k)) else None)"
proof -
  let ?f = "\<lambda>k. (k, crc (block_at bs input k))"
  have "map_of (rev (map ?f [1..<n + 1])) = map_of (map ?f [1..<n + 1])"
    by (rule map_of_inject_set [THEN iffD2]) (simp_all add: distinct_map comp_def inj_on_def)
  moreover have "map_of (map ?f [1..<n + 1]) k
                   = (if k \<in> set [1..<n + 1] then Some (crc (block_at bs input k)) else None)"
    by (simp add: map_of_map_restrict restrict_map_def comp_def del: upt_Suc)
  ultimately show ?thesis
    by (auto simp: starved_def map_find_def)
qed


lemma starved_step:
  assumes "0 < bs" "(n + 2) * bs \<le> length input"
  shows "run crc bs [Read_block, Check_size, Run_task 1] (starved crc bs input n)
           = Some (starved crc bs input (Suc n))"
proof -
  define s where "s = starved crc bs input n"
  define t0 where "t0 = \<lparr>buffer_ptr = block_at bs input 0, readed_size = bs,
                          captured_block_counter = 0\<rparr>"
  define t where "t = \<lparr>buffer_ptr = block_at bs input (n + 1), readed_size = bs,
                        captured_block_counter = n + 1\<rparr>"
  define s1 where "s1 = s\<lparr>input_file := drop ((n + 2) * bs) input, eofbit := False,
                 thread_pool := [t0, t], block_counter := n + 2, control := Size_check\<rparr>"
  define s2 where "s2 = s1\<lparr>control := Read_loop\<rparr>"
  have in1: "input_file s = drop ((n + 1) * bs) input" by (simp add: s_def starved_def)
  have le: "((n + 1) + 1) * bs \<le> length input" using assms(2) by simp
  have g1: "control s = Read_loop" "\<not> eofbit s" by (simp_all add: s_def starved_def)
  have r1: "read_block bs s = s1"
    unfolding read_block_full [OF in1 le]
    by (simp add: s1_def t_def t0_def s_def starved_def)
  have f1: "fire crc bs Read_block s = Some s1"
    using g1 r1 by simp
  have none0: "map_find (block_crc_map s1) (last_processed_block_id s1) = None"
    using starved_find [of crc bs input n 0] by (simp add: s1_def s_def starved_def)
  have "crc_saver s1 = s1" using none0 by (rule crc_saver_None)
  then have r2: "size_check s1 = s2"
    by (simp add: size_check_def s2_def)
  have g2: "control s1 = Size_check" by (simp add: s1_def)
  have f2: "fire crc bs Check_size s1 = Some s2"
    using g2 r2 by simp
  have p2: "thread_pool s2 = [t0, t]" by (simp add: s2_def s1_def)
  have m2: "block_crc_map (take_task 1 s2) = block_crc_map (starved crc bs input n)"
    by (simp add: take_task_def s2_def s1_def s_def)
  have ct: "captured_block_counter t = n + 1" by (simp add: t_def)
  have "map_find (block_crc_map (take_task 1 s2)) (captured_block_counter t) = None"
    unfolding m2 ct starved_find by simp
  then have fresh: "captured_block_counter t \<notin> fst ` set (block_crc_map (take_task 1 s2))"
    by (simp add: map_find_None_iff)
  have len: "length (block_at bs input (n + 1)) = bs"
    using assms(2) by (simp add: block_at_length)
  have tc: "task_crc crc t = crc (block_at bs input (n + 1))"
    using len by (simp add: task_crc_def t_def)
  have r3: "run_task crc t (take_task 1 s2) = starved crc bs input (Suc n)"
    unfolding run_task_fresh [OF fresh] tc ct
    by (simp add: starved_def take_task_def s2_def s1_def s_def t0_def)
  have f3: "fire crc bs (Run_task 1) s2 = Some (starved crc bs input (Suc n))"
    using r3 p2 by simp
  show ?thesis
    unfolding s_def [symmetric] by (simp only: run.simps f1 f2 f3 option.case)
qed

lemma starved_0:
  assumes "0 < bs" "bs \<le> length input"
  shows "run crc bs (starve 0) (start input) = Some (starved crc bs input 0)"
proof -
  have in0: "input_file (start input) = drop (0 * bs) input" by (simp add: start_def)
  have le: "(0 + 1) * bs \<le> length input" using assms(2) by simp
  have "read_block bs (start input)
          = (start input)\<lparr>input_file := drop bs input, eofbit := False,
               thread_pool := [\<lparr>buffer_ptr = block_at bs input 0, readed_size = bs,
                                captured_block_counter = 0\<rparr>],
               block_counter := 1, control := Size_check\<rparr>"
    using read_block_full [OF in0 le] by (simp add: start_def)
  then show ?thesis
    by (simp add: starve_def starved_def start_def size_check_def map_size_def
        BLOCK_CRC_MAP_PROCESSING_SIZE_def)
qed

text \<open>
  However many blocks the input has, the run \<open>starve n\<close> leads to a state with \<open>n\<close> records
  in the map and none of them written.
\<close>

lemma starve_run:
  assumes "0 < bs"
  shows "(n + 1) * bs \<le> length input
           \<Longrightarrow> run crc bs (starve n) (start input) = Some (starved crc bs input n)"
proof (induction n)
  case 0
  then show ?case using starved_0 [OF assms] by simp
next
  case (Suc n)
  have "(n + 1) * bs \<le> length input" using Suc.prems by simp
  then have a: "run crc bs (starve n) (start input) = Some (starved crc bs input n)"
    by (rule Suc.IH)
  have b: "(n + 2) * bs \<le> length input" using Suc.prems by simp
  show ?case
    unfolding starve_Suc run_append a using starved_step [OF assms b] by simp
qed

lemma starved_size:
  "map_size (block_crc_map (starved crc bs input n)) = n"
  "last_processed_block_id (starved crc bs input n) = 0"
  "output_file_stream (starved crc bs input n) = []"
  "length (thread_pool (starved crc bs input n)) = 1"
  "block_counter (starved crc bs input n) = n + 1"
  "control (starved crc bs input n) = Read_loop"
  "eofbit (starved crc bs input n) = False"
  by (simp_all add: starved_def map_size_def del: upt_Suc)

text \<open>
  C5, as the code has it: after the dispatch of a block the main thread is at the check of
  the size of the map and can read no further block before it; when the map holds at
  least \<open>BLOCK_CRC_MAP_PROCESSING_SIZE = 100\<close> records the check calls \<open>crc_saver\<close>, on
  the main thread. This puts no bound on the map: nothing is ever removed from it, and in
  every state of every run it holds one record for each block read whose task has run,
  written or not.
\<close>

theorem size_check_invokes_crc_saver:
  "(control s = Size_check \<longrightarrow>
      fire crc bs Read_block s = None
      \<and> fire crc bs Check_size s
          = Some ((if BLOCK_CRC_MAP_PROCESSING_SIZE \<le> map_size (block_crc_map s)
                   then crc_saver s else s)\<lparr>control := Read_loop\<rparr>))
   \<and> (fire crc bs Read_block s = Some s' \<longrightarrow> control s' = Size_check)
   \<and> (run crc bs sched (start input) = Some s'' \<longrightarrow>
        map_size (block_crc_map s'') + length (thread_pool s'') = block_counter s'')"
proof (intro conjI impI)
  assume "control s = Size_check"
  then show "fire crc bs Read_block s = None"
    and "fire crc bs Check_size s
          = Some ((if BLOCK_CRC_MAP_PROCESSING_SIZE \<le> map_size (block_crc_map s)
                   then crc_saver s else s)\<lparr>control := Read_loop\<rparr>)"
    by (simp_all add: size_check_def)
next
  assume "fire crc bs Read_block s = Some s'"
  then show "control s' = Size_check"
    by (auto simp: read_block_def Let_def split: if_splits)
next
  assume "run crc bs sched (start input) = Some s''"
  then have "ids_inv s''" by (rule reachable_ids)
  then show "map_size (block_crc_map s'') + length (thread_pool s'') = block_counter s''"
    by (rule store_size)
qed

theorem size_check_invokes_crc_saver_witness:
  "run crc_32 1024 (starve 100 @ [Read_block]) (start (replicate (1024 * 1024) 0))
     = Some (read_block 1024 (starved crc_32 1024 (replicate (1024 * 1024) 0) 100))
   \<and> control (read_block 1024 (starved crc_32 1024 (replicate (1024 * 1024) 0) 100))
       = Size_check
   \<and> map_size (block_crc_map
         (read_block 1024 (starved crc_32 1024 (replicate (1024 * 1024) 0) 100))) = 100
   \<and> fire crc_32 1024 Check_size
         (read_block 1024 (starved crc_32 1024 (replicate (1024 * 1024) 0) 100))
       = Some ((crc_saver (read_block 1024 (starved crc_32 1024 (replicate (1024 * 1024) 0) 100)))
                 \<lparr>control := Read_loop\<rparr>)
   \<and> block_counter (read_block 1024 (starved crc_32 1024 (replicate (1024 * 1024) 0) 100))
       = 102"
proof -
  define I where "I = replicate (1024 * 1024) (0 :: byte)"
  define S where "S = read_block 1024 (starved crc_32 1024 I 100)"
  have p: "0 < (1024 :: nat)" by simp
  have l: "(100 + 1) * 1024 \<le> length I" by (simp add: I_def)
  have a: "run crc_32 1024 (starve 100) (start I) = Some (starved crc_32 1024 I 100)"
    using p l by (rule starve_run)
  have r: "run crc_32 1024 (starve 100 @ [Read_block]) (start I) = Some S"
    unfolding run_append a by (simp add: starved_size S_def)
  have c: "control S = Size_check"
    by (simp add: S_def read_block_def Let_def)
  have m: "map_size (block_crc_map S) = 100"
    by (simp add: S_def read_block_def Let_def starved_size)
  have k: "length (thread_pool S) = 2"
    by (simp add: S_def read_block_def Let_def starved_size)
  have f: "fire crc_32 1024 Check_size S
             = Some ((if BLOCK_CRC_MAP_PROCESSING_SIZE \<le> map_size (block_crc_map S)
                      then crc_saver S else S)\<lparr>control := Read_loop\<rparr>)"
    using size_check_invokes_crc_saver [where s = S and crc = crc_32 and bs = 1024] c
    by blast
  have n: "map_size (block_crc_map S) + length (thread_pool S) = block_counter S"
    using size_check_invokes_crc_saver
      [where s'' = S and crc = crc_32 and bs = 1024 and input = I] r
    by blast
  have f': "fire crc_32 1024 Check_size S = Some ((crc_saver S)\<lparr>control := Read_loop\<rparr>)"
    using f m by (simp add: BLOCK_CRC_MAP_PROCESSING_SIZE_def)
  have n': "block_counter S = 102" using n m k by simp
  show ?thesis
    using r c m f' n' unfolding S_def I_def by blast
qed

text \<open>
  The claim C5 has the number of records that are computed and not yet written stay
  bounded. In this run on an input of 1 MiB with blocks of 1 KiB, the task of block 0 is
  kept waiting while the tasks of the blocks 1 to 1000 finish: from the hundredth record on
  every check calls \<open>crc_saver\<close>, which finds block 0 missing and writes nothing, and the
  map comes to hold 1000 records, none of them written.
\<close>

theorem store_exceeds_high_water_mark:
  "map_option (\<lambda>s. (map_size (block_crc_map s), last_processed_block_id s,
                      output_file_stream s))
     (run crc_32 1024 (starve 1000) (start (replicate (1024 * 1024) 0)))
     = Some (1000, 0, [])
   \<and> BLOCK_CRC_MAP_PROCESSING_SIZE = 100"
proof -
  have p: "0 < (1024 :: nat)" by simp
  have l: "(1000 + 1) * 1024 \<le> length (replicate (1024 * 1024) (0 :: byte))" by simp
  show ?thesis
    unfolding starve_run [OF p l]
    by (simp only: option.map starved_size BLOCK_CRC_MAP_PROCESSING_SIZE_def simp_thms)
qed

section \<open>Every run can reach the return of \<open>main\<close>\<close>

lemma crc_saver_all:
  assumes "ids_inv s" "thread_pool s = []"
  shows "last_processed_block_id (crc_saver s) = block_counter s"
proof -
  obtain n ws where
    eq: "crc_saver s = s\<lparr>output_file_stream := output_file_stream s @ ws,
                           last_processed_block_id := last_processed_block_id s + n\<rparr>"
    and stop: "map_find (block_crc_map s) (last_processed_block_id s + n) = None"
    using crc_saver_run [of s] by blast
  have keys: "fst ` set (block_crc_map s) = {..<block_counter s}"
    using assms unfolding ids_inv_def by simp
  have "last_processed_block_id s + n \<notin> {..<block_counter s}"
    using stop keys by (simp add: map_find_None_iff)
  then have ge: "block_counter s \<le> last_processed_block_id s + n" by simp
  have "ids_inv (crc_saver s)" using assms(1) by (rule crc_saver_ids)
  then have "last_processed_block_id (crc_saver s) \<le> block_counter (crc_saver s)"
    unfolding ids_inv_def by simp
  then have le: "last_processed_block_id (crc_saver s) \<le> block_counter s"
    by (simp add: crc_saver_same)
  have "last_processed_block_id (crc_saver s) = last_processed_block_id s + n"
    by (subst eq) simp
  then show ?thesis using ge le by simp
qed

text \<open>
  A state that \<open>main\<close> has not returned from has an action, other than a failed allocation,
  that brings the return nearer.
\<close>

lemma progress:
  assumes "0 < bs" "pipeline_inv crc bs input s" "\<forall>c. control s \<noteq> Returned c"
  shows "\<exists>a s'. \<not> is_throw a \<and> fire crc bs a s = Some s'
                 \<and> steps_left bs input s' < steps_left bs input s"
proof -
  have i: "ids_inv s" and d: "data_inv crc bs input s"
    using assms(2) by (simp_all add: pipeline_inv_def)
  show ?thesis
  proof (cases "thread_pool s")
    case (Cons t ts)
    let ?s' = "run_task crc (thread_pool s ! 0) (take_task 0 s)"
    have f: "fire crc bs (Run_task 0) s = Some ?s'" using Cons by simp
    have "thread_pool ?s' = ts" "block_counter ?s' = block_counter s"
      "control ?s' = control s" "last_processed_block_id ?s' = last_processed_block_id s"
      using Cons by (simp_all add: run_task_def take_task_def Let_def split: prod.splits)
    then have "steps_left bs input ?s' < steps_left bs input s"
      using Cons by (simp add: steps_left_def)
    then show ?thesis using f by (metis is_throw.simps(7))
  next
    case Nil
    show ?thesis
    proof (cases "control s")
      case (Returned c)
      then show ?thesis using assms(3) by simp
    next
      case Size_check
      have f: "fire crc bs Check_size s = Some (size_check s)" using Size_check by simp
      have "thread_pool (size_check s) = []" "block_counter (size_check s) = block_counter s"
        "control (size_check s) = Read_loop"
        using Nil by (simp_all add: size_check_def crc_saver_same)
      then have "steps_left bs input (size_check s) < steps_left bs input s"
        using Size_check Nil by (simp add: steps_left_def)
      then show ?thesis using f by (metis is_throw.simps(4))
    next
      case Read_loop
      show ?thesis
      proof (cases "eofbit s")
        case True
        let ?s' = "s\<lparr>control := Drain_loop\<rparr>"
        have f: "fire crc bs End_of_file s = Some ?s'" using Read_loop True by simp
        have "steps_left bs input ?s' < steps_left bs input s"
          using Read_loop by (simp add: steps_left_def)
        then show ?thesis using f by (metis is_throw.simps(3))
      next
        case False
        have f: "fire crc bs Read_block s = Some (read_block bs s)"
          using Read_loop False by simp
        have "block_counter s * bs \<le> length input"
          using d False by (simp add: data_inv_def stream_ok_def)
        then have k: "block_counter s \<le> length input div bs"
          using assms(1) by (simp add: less_eq_div_iff_mult_less_eq)
        have "thread_pool (read_block bs s) = [last (thread_pool (read_block bs s))]"
          "block_counter (read_block bs s) = block_counter s + 1"
          "control (read_block bs s) = Size_check"
          using Nil by (simp_all add: read_block_def Let_def)
        then have "length (thread_pool (read_block bs s)) = 1"
          "block_counter (read_block bs s) = block_counter s + 1"
          "control (read_block bs s) = Size_check"
          by (metis length_Cons list.size(3) One_nat_def, simp_all)
        then have "steps_left bs input (read_block bs s) < steps_left bs input s"
          using Read_loop Nil k by (simp add: steps_left_def)
        then show ?thesis using f by (metis is_throw.simps(2))
      qed
    next
      case Drain_loop
      show ?thesis
      proof (cases "last_processed_block_id s = block_counter s")
        case True
        have f: "fire crc bs Finish s = Some (finish s)" using Drain_loop True by simp
        have "steps_left bs input (finish s) < steps_left bs input s"
          using Drain_loop True by (simp add: steps_left_def finish_def)
        then show ?thesis using f by (metis is_throw.simps(6))
      next
        case False
        have f: "fire crc bs Drain s = Some (drain s)" using Drain_loop False by simp
        let ?s0 = "s\<lparr>log := log s @ [Sleep_ms 10]\<rparr>"
        have "ids_inv ?s0" using i by (simp add: inv_log)
        moreover have "thread_pool ?s0 = []" using Nil by simp
        ultimately have "last_processed_block_id (crc_saver ?s0) = block_counter ?s0"
          by (rule crc_saver_all)
        then have "last_processed_block_id (drain s) = block_counter (drain s)"
          "thread_pool (drain s) = []" "control (drain s) = Drain_loop"
          "block_counter (drain s) = block_counter s"
          using Nil Drain_loop by (simp_all add: drain_def crc_saver_same)
        then have "steps_left bs input (drain s) < steps_left bs input s"
          using Drain_loop False Nil by (simp add: steps_left_def)
        then show ?thesis using f by (metis is_throw.simps(5))
      qed
    qed
  qed
qed

lemma can_complete:
  assumes "0 < bs"
  shows "pipeline_inv crc bs input s \<Longrightarrow>
           \<exists>sched s'. no_throw sched \<and> run crc bs sched s = Some s'
                      \<and> control s' = Returned EXIT_SUCCESS"
proof (induction "steps_left bs input s" arbitrary: s rule: less_induct)
  case less
  show ?case
  proof (cases "\<exists>c. control s = Returned c")
    case True
    then have "control s = Returned EXIT_SUCCESS"
      using less.prems by (auto simp: pipeline_inv_def ctl_inv_def)
    moreover have "no_throw []" by (simp add: no_throw_def)
    moreover have "run crc bs [] s = Some s" by simp
    ultimately show ?thesis by blast
  next
    case False
    then have "\<forall>c. control s \<noteq> Returned c" by simp
    from progress [OF assms less.prems this] obtain a s1 where
      a: "\<not> is_throw a" and f: "fire crc bs a s = Some s1"
      and m: "steps_left bs input s1 < steps_left bs input s"
      by blast
    have "pipeline_inv crc bs input s1" using less.prems f assms by (rule fire_inv)
    from less.hyps [OF m this] obtain sched s' where
      n: "no_throw sched" and r: "run crc bs sched s1 = Some s'"
      and c: "control s' = Returned EXIT_SUCCESS"
      by blast
    have "no_throw (a # sched)" using a n by (simp add: no_throw_def)
    moreover have "run crc bs (a # sched) s = Some s'" using f r by simp
    ultimately show ?thesis using c by blast
  qed
qed

text \<open>
  Every run, whatever it has done so far, can go on to the return of \<open>main\<close>: the program
  does not get stuck, provided the pool runs the tasks it was given.
\<close>

lemma run_can_complete:
  assumes "0 < bs" "run crc bs sched (start input) = Some s"
  shows "\<exists>sched' s'. no_throw sched' \<and> run crc bs (sched @ sched') (start input) = Some s'
                      \<and> control s' = Returned EXIT_SUCCESS"
proof -
  have "pipeline_inv crc bs input s" using assms by (rule reachable_inv)
  then obtain sched' s' where "no_throw sched'" "run crc bs sched' s = Some s'"
    "control s' = Returned EXIT_SUCCESS"
    using can_complete [OF assms(1)] by blast
  then show ?thesis using assms(2) by (auto simp: run_append)
qed

end
